theory Spec2Isabelle
  imports Main "HOL-Library.List_Lexorder"
begin

section \<open>Strings of the host language\<close>

text \<open>
  The sources are TypeScript. A string there is a sequence of UTF-16 code units, and
  several literals of the program are Cyrillic, so a string is modelled as the list of
  its code units, each an integer. \<open>asc\<close> reads an ASCII literal.
\<close>

type_synonym jschar = int
type_synonym jstring = "jschar list"

definition asc :: "string \<Rightarrow> jstring" where
  "asc s = map of_char s"

text \<open>The placeholder literal of the program (Cyrillic N, slash, Cyrillic D: "n/a").\<close>

definition ND :: jstring where
  "ND = [1053, 47, 1044]"

text \<open>
  White space as \<open>String.prototype.trim\<close> and the class \<open>\s\<close> of regular expressions
  see it: the WhiteSpace and LineTerminator code points of ECMAScript.
\<close>

definition isSpace :: "jschar \<Rightarrow> bool" where
  "isSpace c \<longleftrightarrow>
     c = 9 \<or> c = 10 \<or> c = 11 \<or> c = 12 \<or> c = 13 \<or> c = 32 \<or> c = 160 \<or> c = 5760 \<or>
     (8192 \<le> c \<and> c \<le> 8202) \<or> c = 8232 \<or> c = 8233 \<or> c = 8239 \<or> c = 8287 \<or>
     c = 12288 \<or> c = 65279"

definition trim :: "jstring \<Rightarrow> jstring" where
  "trim s = rev (dropWhile isSpace (rev (dropWhile isSpace s)))"

text \<open>\<open>String(n)\<close> for an integer and \<open>padStart(2, '0')\<close>.\<close>

fun natToString :: "nat \<Rightarrow> jstring" where
  "natToString n =
     (if n < 10 then [48 + int n] else natToString (n div 10) @ [48 + int (n mod 10)])"

declare natToString.simps [simp del]

definition intToString :: "int \<Rightarrow> jstring" where
  "intToString i = (if i < 0 then 45 # natToString (nat (- i)) else natToString (nat i))"

definition padStart2 :: "jstring \<Rightarrow> jstring" where
  "padStart2 s = replicate (2 - length s) 48 @ s"

section \<open>Rendering a date (formatDateForProtocol)\<close>

text \<open>
  \<open>new Date(dateStr)\<close> belongs to the host. Its outcome is either an invalid date (the
  time value is NaN) or a date whose local calendar fields \<open>getFullYear()\<close>,
  \<open>getMonth()\<close> (0 to 11) and \<open>getDate()\<close> are read by the function. The constructor is
  a parameter of the model.
\<close>

datatype jsdate = InvalidDate | LocalDate (fullYear: int) (month0: nat) (dayOfMonth: nat)

text \<open>
  The argument is \<open>None\<close> for an absent (undefined or null) value. \<open>new Date\<close> of a
  string never throws, so the \<open>catch\<close> branch of the source is not reachable here.
\<close>

definition formatDateForProtocol :: "(jstring \<Rightarrow> jsdate) \<Rightarrow> jstring option \<Rightarrow> jstring" where
  "formatDateForProtocol newDate dateStr =
     (case dateStr of
        None \<Rightarrow> ND
      | Some s \<Rightarrow>
          if s = [] \<or> s = ND then ND
          else (case newDate s of
                  InvalidDate \<Rightarrow> s
                | LocalDate y m d \<Rightarrow>
                    padStart2 (natToString d) @ [46] @ padStart2 (natToString (m + 1)) @ [46]
                      @ intToString y))"

text \<open>
  A sample host for concrete runs: it reads the date-only form \<open>YYYY-MM-DD\<close> of the
  ECMAScript date-time string format in a host whose local time zone is UTC, and
  rejects every other text.
\<close>

definition isDigit :: "jschar \<Rightarrow> bool" where
  "isDigit c \<longleftrightarrow> 48 \<le> c \<and> c \<le> 57"

definition digitsToNat :: "jstring \<Rightarrow> nat" where
  "digitsToNat s = foldl (\<lambda>a c. 10 * a + nat (c - 48)) 0 s"

definition daysInMonth :: "nat \<Rightarrow> nat \<Rightarrow> nat" where
  "daysInMonth y m =
     (if m = 2 then (if (y mod 4 = 0 \<and> y mod 100 \<noteq> 0) \<or> y mod 400 = 0 then 29 else 28)
      else if m = 4 \<or> m = 6 \<or> m = 9 \<or> m = 11 then 30 else 31)"

definition isoDateHost :: "jstring \<Rightarrow> jsdate" where
  "isoDateHost s =
     (if length s = 10 \<and> s ! 4 = 45 \<and> s ! 7 = 45
         \<and> list_all isDigit (take 4 s) \<and> list_all isDigit (take 2 (drop 5 s))
         \<and> list_all isDigit (drop 8 s)
      then (let y = digitsToNat (take 4 s); m = digitsToNat (take 2 (drop 5 s));
                d = digitsToNat (drop 8 s)
            in if 1 \<le> m \<and> m \<le> 12 \<and> 1 \<le> d \<and> d \<le> daysInMonth y m
               then LocalDate (int y) (m - 1) d else InvalidDate)
      else InvalidDate)"

section \<open>Regular expressions of the host\<close>

text \<open>
  The program matches text with regular expressions. The constructs it uses are
  modelled by a backtracking matcher that returns every way to match in the order in
  which the host tries them; the first one is the host's answer. A state of the matcher
  is whether the position is the start of the input (for \<open>^\<close>), the rest of the input
  and the groups captured so far.
\<close>

datatype rx =
    Chr "jschar \<Rightarrow> bool"
  | Eps
  | Seq rx rx
  | Alt rx rx
  | Star bool rx
  | Grp nat rx
  | Bol
  | Eol

type_synonym captures = "nat \<rightharpoonup> jstring"
type_synonym mstate = "bool \<times> jstring \<times> captures"

definition rest :: "mstate \<Rightarrow> jstring" where
  "rest st = fst (snd st)"

text \<open>
  \<open>r*\<close> (greedy when the flag is set, lazy otherwise): an iteration that consumes
  nothing is rejected, as the host does. The counter is the length of the rest, which
  bounds the number of iterations.
\<close>

primrec star :: "bool \<Rightarrow> (mstate \<Rightarrow> mstate list) \<Rightarrow> nat \<Rightarrow> mstate \<Rightarrow> mstate list" where
  "star g f 0 st = [st]"
| "star g f (Suc n) st =
     (let more = concat (map (star g f n)
                   (filter (\<lambda>st'. length (rest st') < length (rest st)) (f st)))
      in if g then more @ [st] else st # more)"

primrec rxm :: "rx \<Rightarrow> mstate \<Rightarrow> mstate list" where
  "rxm (Chr p) st =
     (case rest st of
        [] \<Rightarrow> []
      | x # xs \<Rightarrow> if p x then [(False, xs, snd (snd st))] else [])"
| "rxm Eps st = [st]"
| "rxm (Seq r1 r2) st = concat (map (rxm r2) (rxm r1 st))"
| "rxm (Alt r1 r2) st = rxm r1 st @ rxm r2 st"
| "rxm (Star g r) st = star g (rxm r) (length (rest st)) st"
| "rxm (Grp n r) st =
     map (\<lambda>st'. (fst st', rest st',
                  (snd (snd st'))(n \<mapsto> take (length (rest st) - length (rest st')) (rest st))))
         (rxm r st)"
| "rxm Bol st = (if fst st then [st] else [])"
| "rxm Eol st = (if rest st = [] then [st] else [])"

declare rxm.simps [simp del]

text \<open>
  A match at the current position: the matched text, the groups and the text after it.
\<close>

definition matchAt :: "rx \<Rightarrow> bool \<Rightarrow> jstring \<Rightarrow> (jstring \<times> captures \<times> jstring) option" where
  "matchAt r atStart s =
     (case rxm r (atStart, s, Map.empty) of
        [] \<Rightarrow> None
      | st # _ \<Rightarrow> Some (take (length s - length (rest st)) s, snd (snd st), rest st))"

text \<open>
  The first match at or after the current position, \<open>pre\<close> being the text before it:
  the text before the match, the matched text, the groups, the text after the match.
\<close>

fun search :: "rx \<Rightarrow> jstring \<Rightarrow> bool \<Rightarrow> jstring
    \<Rightarrow> (jstring \<times> jstring \<times> captures \<times> jstring) option" where
  "search r pre atStart [] =
     (case matchAt r atStart [] of
        Some (m, c, aft) \<Rightarrow> Some (pre, m, c, aft)
      | None \<Rightarrow> None)"
| "search r pre atStart (x # xs) =
     (case matchAt r atStart (x # xs) of
        Some (m, c, aft) \<Rightarrow> Some (pre, m, c, aft)
      | None \<Rightarrow> search r (pre @ [x]) False xs)"

definition test :: "rx \<Rightarrow> jstring \<Rightarrow> bool" where
  \<comment> \<open>\<open>regex.test(s)\<close> and the truth of \<open>s.match(regex)\<close>, without the \<open>g\<close> flag\<close>
  "test r s = (case search r [] True s of None \<Rightarrow> False | Some found \<Rightarrow> True)"

text \<open>
  \<open>s.replace(regex, f)\<close> with the \<open>g\<close> flag. The function receives the text before
  the match, the matched text, the groups and the text after the match. After an empty
  match the host steps over one code unit.
\<close>

function replaceG :: "rx \<Rightarrow> (jstring \<Rightarrow> jstring \<Rightarrow> captures \<Rightarrow> jstring \<Rightarrow> jstring)
    \<Rightarrow> jstring \<Rightarrow> bool \<Rightarrow> jstring \<Rightarrow> jstring" where
  "replaceG r f pre atStart s =
     (case matchAt r atStart s of
        None \<Rightarrow> (case s of [] \<Rightarrow> [] | x # xs \<Rightarrow> x # replaceG r f (pre @ [x]) False xs)
      | Some (m, c, aft) \<Rightarrow>
          if m = [] then
            (case s of
               [] \<Rightarrow> f pre m c s
             | x # xs \<Rightarrow> f pre m c s @ x # replaceG r f (pre @ [x]) False xs)
          else f pre m c (drop (length m) s) @ replaceG r f (pre @ m) False (drop (length m) s))"
  by pat_completeness auto
termination
  by (relation "measure (\<lambda>(r, f, pre, atStart, s). length s)") (auto simp: matchAt_def split: list.splits)

declare replaceG.simps [simp del]

text \<open>
  All matches of a regular expression with the \<open>g\<close> flag, as \<open>s.matchAll(regex)\<close> lists
  them: the index, the matched text and the groups of each.
\<close>

record jsmatch =
  m_index :: nat
  m_text :: jstring
  m_groups :: captures

function matchAll :: "rx \<Rightarrow> jstring \<Rightarrow> bool \<Rightarrow> jstring \<Rightarrow> jsmatch list" where
  "matchAll r pre atStart s =
     (case search r pre atStart s of
        None \<Rightarrow> []
      | Some (bef, m, c, aft) \<Rightarrow>
          \<lparr> m_index = length bef, m_text = m, m_groups = c \<rparr> #
          (if m = [] then
             (case drop (length bef - length pre) s of
                [] \<Rightarrow> []
              | x # xs \<Rightarrow> matchAll r (bef @ [x]) False xs)
           else matchAll r (bef @ m) False (drop (length bef - length pre + length m) s)))"
  by pat_completeness auto
termination
proof (relation "measure (\<lambda>(r, pre, atStart, s). length s)", goal_cases)
  case 1
  show ?case by simp
next
  case (2 r pre atStart s x2 bef y m z c aft x xs)
  then have "length (drop (length bef - length pre) s) = Suc (length xs)" by simp
  then show ?case by simp
next
  case (3 r pre atStart s x2 bef y m z c aft)
  then have "s \<noteq> []"
    by (cases s) (auto simp: matchAt_def split: list.splits)
  with 3 show ?case by simp
qed

declare matchAll.simps [simp del]

text \<open>
  A replacement given as a text is expanded by the host: \<open>$$\<close> is a dollar sign,
  \<open>$&\<close> the matched text, \<open>$`\<close> the text before the match and \<open>$'\<close> the text after
  it. The regular expressions that the program replaces by a text have no capturing
  group, so that a dollar sign before a digit or any other code unit stands for itself.
\<close>

fun getSubstitution :: "jstring \<Rightarrow> jstring \<Rightarrow> jstring \<Rightarrow> jstring \<Rightarrow> jstring" where
  "getSubstitution m bef aft [] = []"
| "getSubstitution m bef aft [x] = [x]"
| "getSubstitution m bef aft (x # y # r) =
     (if x = 36 then
        (if y = 36 then 36 # getSubstitution m bef aft r
         else if y = 38 then m @ getSubstitution m bef aft r
         else if y = 96 then bef @ getSubstitution m bef aft r
         else if y = 39 then aft @ getSubstitution m bef aft r
         else 36 # getSubstitution m bef aft (y # r))
      else x # getSubstitution m bef aft (y # r))"

definition replaceGStr :: "rx \<Rightarrow> jstring \<Rightarrow> jstring \<Rightarrow> jstring" where
  \<comment> \<open>\<open>s.replace(regex, text)\<close> with the \<open>g\<close> flag\<close>
  "replaceGStr r replacement s =
     replaceG r (\<lambda>bef m c aft. getSubstitution m bef aft replacement) [] True s"

definition replaceFirst :: "rx \<Rightarrow> jstring \<Rightarrow> jstring \<Rightarrow> jstring" where
  \<comment> \<open>\<open>s.replace(regex, text)\<close> without the \<open>g\<close> flag\<close>
  "replaceFirst r replacement s =
     (case search r [] True s of
        None \<Rightarrow> s
      | Some (bef, m, c, aft) \<Rightarrow> bef @ getSubstitution m bef aft replacement @ aft)"

subsection \<open>Building blocks of the program's expressions\<close>

text \<open>
  Under the \<open>i\<close> flag a literal code unit matches every code unit with the same case
  folding. The folding \<open>canon\<close> (Canonicalize of ECMAScript, the upper case of a code
  unit) belongs to the host and is a parameter of the model. It leaves digits,
  punctuation, white space and line terminators alone and folds nothing else onto them,
  so the classes \<open>\d\<close>, \<open>\s\<close> and \<open>.\<close> are the same with and without the flag; it also
  leaves \<open>A-Z\<close> alone, so \<open>[A-Z0-9]\<close> under the flag holds the code units whose
  folding is in the class.
\<close>

definition exactly :: "jschar \<Rightarrow> jschar \<Rightarrow> bool" where
  "exactly x c \<longleftrightarrow> c = x"

definition folded :: "(jschar \<Rightarrow> jschar) \<Rightarrow> jschar \<Rightarrow> jschar \<Rightarrow> bool" where
  "folded canon x c \<longleftrightarrow> canon c = canon x"

definition upperAlnum :: "jschar \<Rightarrow> bool" where
  \<comment> \<open>\<open>[A-Z0-9]\<close>\<close>
  "upperAlnum c \<longleftrightarrow> (65 \<le> c \<and> c \<le> 90) \<or> isDigit c"

definition foldedAlnum :: "(jschar \<Rightarrow> jschar) \<Rightarrow> jschar \<Rightarrow> bool" where
  \<comment> \<open>\<open>[A-Z0-9]\<close> under the \<open>i\<close> flag\<close>
  "foldedAlnum canon c \<longleftrightarrow> upperAlnum (canon c)"

definition anyChar :: "jschar \<Rightarrow> bool" where
  \<comment> \<open>\<open>.\<close>: every code unit but the line terminators\<close>
  "anyChar c \<longleftrightarrow> c \<noteq> 10 \<and> c \<noteq> 13 \<and> c \<noteq> 8232 \<and> c \<noteq> 8233"

definition seqs :: "rx list \<Rightarrow> rx" where
  "seqs rs = foldr Seq rs Eps"

definition lit :: "jstring \<Rightarrow> rx" where
  "lit s = seqs (map (\<lambda>x. Chr (exactly x)) s)"

definition ilit :: "(jschar \<Rightarrow> jschar) \<Rightarrow> jstring \<Rightarrow> rx" where
  "ilit canon s = seqs (map (\<lambda>x. Chr (folded canon x)) s)"

definition plus :: "rx \<Rightarrow> rx" where
  \<comment> \<open>\<open>r+\<close>\<close>
  "plus r = Seq r (Star True r)"

definition spaces :: rx where
  \<comment> \<open>\<open>\s*\<close>\<close>
  "spaces = Star True (Chr isSpace)"

definition hhmm :: rx where
  \<comment> \<open>\<open>\d{2}:\d{2}\<close>\<close>
  "hhmm = seqs [Chr isDigit, Chr isDigit, Chr (exactly 58), Chr isDigit, Chr isDigit]"

definition speakerWord :: jstring where
  \<comment> \<open>the Cyrillic word for "speaker" that the program puts in front of a speaker token\<close>
  "speakerWord = [1057, 1087, 1080, 1082, 1077, 1088]"

text \<open>
  A sample folding for concrete runs: the upper case of Basic Latin and of the Cyrillic
  letters, every other code unit being left alone.
\<close>

definition canonicalize :: "jschar \<Rightarrow> jschar" where
  "canonicalize c =
     (if 97 \<le> c \<and> c \<le> 122 then c - 32
      else if 1072 \<le> c \<and> c \<le> 1103 then c - 32
      else if 1104 \<le> c \<and> c \<le> 1119 then c - 80
      else c)"

subsection \<open>Escaping a label (escapeRegExp)\<close>

definition isSyntaxChar :: "jschar \<Rightarrow> bool" where
  \<comment> \<open>the class \<open>[.*+?^${}()|[\]\\]\<close>\<close>
  "isSyntaxChar c \<longleftrightarrow> c \<in> {46, 42, 43, 63, 94, 36, 123, 125, 40, 41, 124, 91, 93, 92}"

definition escapeRegExp :: "jstring \<Rightarrow> jstring" where
  "escapeRegExp s = replaceGStr (Chr isSyntaxChar) [92, 36, 38] s"

text \<open>
  The RegExp constructor reads the escaped text back: a backslash and the code unit
  after it denote that code unit, any other code unit denotes itself. (A text with a
  syntax character that is not escaped is nothing the program builds.)
\<close>

fun readEscaped :: "(jschar \<Rightarrow> rx) \<Rightarrow> jstring \<Rightarrow> rx list" where
  "readEscaped atom [] = []"
| "readEscaped atom [x] = [atom x]"
| "readEscaped atom (x # y # r) =
     (if x = 92 then atom y # readEscaped atom r else atom x # readEscaped atom (y # r))"

definition escapedLiteral :: "(jschar \<Rightarrow> jschar) \<Rightarrow> jstring \<Rightarrow> rx" where
  \<comment> \<open>the escaped label inside an expression with the \<open>i\<close> flag\<close>
  "escapedLiteral canon s = seqs (readEscaped (\<lambda>x. Chr (folded canon x)) (escapeRegExp s))"

section \<open>Parsing the protocol text into blocks (formatProtocolContent)\<close>

text \<open>
  The function turns every line into an element of the page. The model keeps what
  distinguishes the elements: the kind of block and its text (the text that the source
  hands to formatInlineMarkdown, or shows as it is for a line of the transcript).
\<close>

datatype block =
    Heading nat jstring
  | TranscriptUtterance jstring jstring jstring jstring
  | NumberedItem jstring nat jstring
  | BulletList "jstring list"
  | InstructionLine jstring
  | Paragraph jstring
  | Spacer

type_synonym parser = "block list \<times> jstring list"

definition flushList :: "parser \<Rightarrow> parser" where
  "flushList st =
     (case st of (elements, currentList) \<Rightarrow>
        if currentList \<noteq> [] then (elements @ [BulletList currentList], []) else (elements, currentList))"

definition push :: "block \<Rightarrow> parser \<Rightarrow> parser" where
  \<comment> \<open>\<open>elements.push(b)\<close>\<close>
  "push b st = (fst st @ [b], snd st)"

fun splitLines :: "jstring \<Rightarrow> jstring list" where
  \<comment> \<open>\<open>content.split("\n")\<close>\<close>
  "splitLines [] = [[]]"
| "splitLines (x # xs) =
     (if x = 10 then [] # splitLines xs
      else (case splitLines xs of [] \<Rightarrow> [[x]] | l # ls \<Rightarrow> (x # l) # ls))"

definition startsWith :: "jstring \<Rightarrow> jstring \<Rightarrow> bool" where
  "startsWith p s \<longleftrightarrow> take (length p) s = p"

definition grp :: "captures \<Rightarrow> nat \<Rightarrow> jstring" where
  \<comment> \<open>a group of a successful match, read by destructuring\<close>
  "grp c n = (case c n of None \<Rightarrow> [] | Some v \<Rightarrow> v)"

definition ruleRegex :: rx where
  \<comment> \<open>\<open>/^-{3,}$/\<close>\<close>
  "ruleRegex =
     seqs [Bol, Chr (exactly 45), Chr (exactly 45), Chr (exactly 45), Star True (Chr (exactly 45)), Eol]"

definition transcriptRegex :: "(jschar \<Rightarrow> jschar) \<Rightarrow> rx" where
  \<comment> \<open>a time range, the speaker word, a token, a colon and the text, with the \<open>i\<close> flag\<close>
  "transcriptRegex canon =
     seqs [Bol, Chr (exactly 91), Grp 1 hhmm, spaces, Chr (exactly 45), spaces, Grp 2 hhmm,
           Chr (exactly 93), spaces, ilit canon speakerWord, plus (Chr isSpace),
           Grp 3 (plus (Chr (foldedAlnum canon))), Chr (exactly 58), spaces,
           Grp 4 (plus (Chr anyChar)), Eol]"

definition numberedRegex :: rx where
  \<comment> \<open>\<open>/^(\d+(?:\.\d+)*\.)\s*(.+)$/\<close>\<close>
  "numberedRegex =
     seqs [Bol,
           Grp 1 (seqs [plus (Chr isDigit),
                        Star True (seqs [Chr (exactly 46), plus (Chr isDigit)]),
                        Chr (exactly 46)]),
           spaces, Grp 2 (plus (Chr anyChar)), Eol]"

definition bulletRegex :: rx where
  \<comment> \<open>\<open>/^[-\<bullet>]\s*/\<close>, the bullet being the code unit 8226\<close>
  "bulletRegex = seqs [Bol, Chr (\<lambda>c. c = 45 \<or> c = 8226), spaces]"

definition instructionWords :: "jstring list" where
  \<comment> \<open>the Russian words for assignment, responsible, deadline, responsibles, deadlines\<close>
  "instructionWords =
     [[1055, 1086, 1088, 1091, 1095, 1077, 1085, 1080, 1077],
      [1054, 1090, 1074, 1077, 1090, 1089, 1090, 1074, 1077, 1085, 1085, 1099, 1081],
      [1057, 1088, 1086, 1082],
      [1054, 1090, 1074, 1077, 1090, 1089, 1090, 1074, 1077, 1085, 1085, 1099, 1077],
      [1057, 1088, 1086, 1082, 1080]]"

definition instructionRegex :: "(jschar \<Rightarrow> jschar) \<Rightarrow> rx" where
  "instructionRegex canon =
     seqs [Bol,
           Grp 1 (foldr (\<lambda>w r. Alt (ilit canon w) r) (butlast instructionWords)
                    (ilit canon (last instructionWords))),
           Chr (exactly 58)]"

definition parseLine :: "(jschar \<Rightarrow> jschar) \<Rightarrow> parser \<Rightarrow> jstring \<Rightarrow> parser" where
  "parseLine canon st line =
     (let trimmed = trim line
      in if trimmed = [] \<or> trimmed = asc ''---'' \<or> test ruleRegex trimmed then
           (let flushed = flushList st
            in if trimmed = [] \<and> fst flushed \<noteq> [] then push Spacer flushed else flushed)
         else if startsWith (asc ''# '') trimmed then
           push (Heading 1 (trim (drop 2 trimmed))) (flushList st)
         else if startsWith (asc ''## '') trimmed then
           push (Heading 2 (trim (drop 3 trimmed))) (flushList st)
         else if startsWith (asc ''### '') trimmed then
           push (Heading 3 (trim (drop 4 trimmed))) (flushList st)
         else
           (case search (transcriptRegex canon) [] True trimmed of
              Some (bef, m, c, aft) \<Rightarrow>
                push (TranscriptUtterance (grp c 1) (grp c 2) (grp c 3) (grp c 4)) (flushList st)
            | None \<Rightarrow>
                (case search numberedRegex [] True trimmed of
                   Some (bef, m, c, aft) \<Rightarrow>
                     push (NumberedItem (grp c 1) (length (filter (\<lambda>x. x = 46) (grp c 1))) (grp c 2))
                       (flushList st)
                 | None \<Rightarrow>
                     if startsWith (asc ''- '') trimmed \<or> startsWith [8226] trimmed then
                       (let item = trim (replaceFirst bulletRegex [] trimmed)
                        in if item \<noteq> [] then (fst st, snd st @ [item]) else st)
                     else if test (instructionRegex canon) trimmed then
                       push (InstructionLine trimmed) (flushList st)
                     else push (Paragraph trimmed) (flushList st))))"

definition formatProtocolContent :: "(jschar \<Rightarrow> jschar) \<Rightarrow> jstring \<Rightarrow> block list option" where
  \<comment> \<open>\<open>None\<close> is the \<open>null\<close> that the source returns for an empty text\<close>
  "formatProtocolContent canon content =
     (if content = [] then None
      else Some (fst (flushList (foldl (parseLine canon) ([], []) (splitLines content)))))"

section \<open>Resolving bold and italic spans (formatInlineMarkdown)\<close>

text \<open>
  The two expressions are \<open>/\*\*(.+?)\*\*/g\<close> and \<open>/_(.+?)_/g\<close>. The source collects
  the matches of each with a loop of \<open>exec\<close> calls; a match of these expressions is never
  empty, so the loop visits the matches that \<open>matchAll\<close> lists.
\<close>

datatype emphasis = Bold | Italic

record mdmatch =
  md_start :: nat
  md_end :: nat
  md_type :: emphasis
  md_text :: jstring

definition lazyText :: rx where
  \<comment> \<open>\<open>(.+?)\<close>\<close>
  "lazyText = Grp 1 (Seq (Chr anyChar) (Star False (Chr anyChar)))"

definition boldRegex :: rx where
  "boldRegex = seqs [Chr (exactly 42), Chr (exactly 42), lazyText, Chr (exactly 42), Chr (exactly 42)]"

definition italicRegex :: rx where
  "italicRegex = seqs [Chr (exactly 95), lazyText, Chr (exactly 95)]"

definition toMatch :: "emphasis \<Rightarrow> jsmatch \<Rightarrow> mdmatch" where
  "toMatch t m =
     \<lparr> md_start = m_index m, md_end = m_index m + length (m_text m), md_type = t,
       md_text = grp (m_groups m) 1 \<rparr>"

definition boldMatches :: "jstring \<Rightarrow> mdmatch list" where
  "boldMatches text = map (toMatch Bold) (matchAll boldRegex [] True text)"

definition italicMatches :: "jstring \<Rightarrow> mdmatch list" where
  "italicMatches text = map (toMatch Italic) (matchAll italicRegex [] True text)"

definition sortedMatches :: "jstring \<Rightarrow> mdmatch list" where
  \<comment> \<open>\<open>matches.sort((a, b) => a.start - b.start)\<close>, a stable sort\<close>
  "sortedMatches text = sort_key md_start (boldMatches text @ italicMatches text)"

definition overlapsWith :: "mdmatch \<Rightarrow> mdmatch \<Rightarrow> bool" where
  "overlapsWith current filtered \<longleftrightarrow>
     (md_start current \<ge> md_start filtered \<and> md_start current < md_end filtered) \<or>
     (md_end current > md_start filtered \<and> md_end current \<le> md_end filtered) \<or>
     (md_start current \<le> md_start filtered \<and> md_end current \<ge> md_end filtered)"

definition keepUnlessOverlap :: "mdmatch list \<Rightarrow> mdmatch \<Rightarrow> mdmatch list" where
  "keepUnlessOverlap filteredMatches current =
     (if list_ex (overlapsWith current) filteredMatches then filteredMatches
      else filteredMatches @ [current])"

definition filteredMatches :: "jstring \<Rightarrow> mdmatch list" where
  "filteredMatches text = foldl keepUnlessOverlap [] (sortedMatches text)"

definition spansMeet :: "mdmatch \<Rightarrow> mdmatch \<Rightarrow> bool" where
  \<comment> \<open>the two spans have a position in common\<close>
  "spansMeet a b \<longleftrightarrow> md_start a < md_end b \<and> md_start b < md_end a"

section \<open>Upstream payloads as JSON values\<close>

text \<open>
  What \<open>JSON.parse\<close> returns. A number is carried as an integer: the program only
  tests numbers for being zero. A value of the host is a \<open>json option\<close>, \<open>None\<close> being
  \<open>undefined\<close>. \<open>JSON.parse\<close> itself belongs to the host and is a parameter of the
  model; it returns \<open>None\<close> where the host throws a SyntaxError.
\<close>

datatype json =
    JNull
  | JBool bool
  | JNum int
  | JStr jstring
  | JArr "json list"
  | JObj "(jstring \<times> json) list"

text \<open>Truthiness, and reading a property of a value that is not null.\<close>

fun truthy :: "json \<Rightarrow> bool" where
  "truthy JNull = False"
| "truthy (JBool b) = b"
| "truthy (JNum n) = (n \<noteq> 0)"
| "truthy (JStr s) = (s \<noteq> [])"
| "truthy (JArr xs) = True"
| "truthy (JObj kvs) = True"

fun getProp :: "json \<Rightarrow> jstring \<Rightarrow> json option" where
  "getProp (JObj kvs) k = map_of kvs k"
| "getProp j k = None"

text \<open>\<open>a || b\<close>, \<open>a ?? b\<close> and \<open>a?.k\<close> on values of the host.\<close>

definition orElse :: "json option \<Rightarrow> json option \<Rightarrow> json option" where
  "orElse a b = (case a of Some j \<Rightarrow> (if truthy j then a else b) | None \<Rightarrow> b)"

definition nullish :: "json option \<Rightarrow> json option \<Rightarrow> json option" where
  "nullish a b = (case a of None \<Rightarrow> b | Some JNull \<Rightarrow> b | Some j \<Rightarrow> a)"

definition optChain :: "json option \<Rightarrow> jstring \<Rightarrow> json option" where
  "optChain a k = (case a of None \<Rightarrow> None | Some JNull \<Rightarrow> None | Some j \<Rightarrow> getProp j k)"

definition isArray :: "json option \<Rightarrow> bool" where
  "isArray a = (case a of Some (JArr xs) \<Rightarrow> True | _ \<Rightarrow> False)"

text \<open>The same operators on strings that may be absent.\<close>

definition firstTruthy :: "jstring option \<Rightarrow> jstring option \<Rightarrow> jstring option" where
  \<comment> \<open>\<open>a || b\<close> on optional strings\<close>
  "firstTruthy a b = (case a of Some s \<Rightarrow> (if s \<noteq> [] then a else b) | None \<Rightarrow> b)"

definition strOr :: "jstring \<Rightarrow> jstring \<Rightarrow> jstring" where
  \<comment> \<open>\<open>a || b\<close> on strings\<close>
  "strOr a b = (if a = [] then b else a)"

definition optStrOr :: "jstring option \<Rightarrow> jstring \<Rightarrow> jstring" where
  "optStrOr a b = (case a of None \<Rightarrow> b | Some s \<Rightarrow> strOr s b)"

section \<open>Extracting the speaker labels (speakerLabels)\<close>

text \<open>
  \<open>String(v)\<close> of a payload value: an array joins its elements with commas, \<open>null\<close>
  inside an array being the empty text.
\<close>

fun String_json :: "json \<Rightarrow> jstring"
  and join_json :: "json list \<Rightarrow> jstring" where
  "String_json JNull = asc ''null''"
| "String_json (JBool b) = (if b then asc ''true'' else asc ''false'')"
| "String_json (JNum n) = intToString n"
| "String_json (JStr s) = s"
| "String_json (JArr xs) = join_json xs"
| "String_json (JObj kvs) = asc ''[object Object]''"
| "join_json [] = []"
| "join_json [x] = (if x = JNull then [] else String_json x)"
| "join_json (x # y # ys) = (if x = JNull then [] else String_json x) @ [44] @ join_json (y # ys)"

text \<open>The set of labels keeps the order of insertion.\<close>

definition setAdd :: "jstring \<Rightarrow> jstring list \<Rightarrow> jstring list" where
  "setAdd l labels = (if l \<in> set labels then labels else labels @ [l])"

definition idTest :: "jstring \<Rightarrow> bool" where
  \<comment> \<open>\<open>/^[A-Z0-9]+$/.test(s)\<close>\<close>
  "idTest s = test (seqs [Bol, plus (Chr upperAlnum), Eol]) s"

definition withSpeakerWord :: "jstring \<Rightarrow> jstring" where
  \<comment> \<open>the template that puts the speaker word and a space before a token\<close>
  "withSpeakerWord t = speakerWord @ [32] @ t"

text \<open>
  First tier: the segments of the diarization. The identifier of a segment is
  \<open>seg.speaker || seg.spk || seg.label || seg.speaker_label\<close>; reading a property of a
  segment that is \<open>null\<close> raises a TypeError (\<open>None\<close>).
\<close>

definition segmentSpeaker :: "json \<Rightarrow> json option option" where
  "segmentSpeaker seg =
     (if seg = JNull then None
      else Some (orElse (orElse (orElse (getProp seg (asc ''speaker'')) (getProp seg (asc ''spk'')))
                           (getProp seg (asc ''label'')))
                   (getProp seg (asc ''speaker_label''))))"

definition segmentLabel :: "json \<Rightarrow> jstring" where
  "segmentLabel s =
     (let speakerId = trim (String_json s)
      in if idTest speakerId then withSpeakerWord speakerId else speakerId)"

fun fromSegments :: "jstring list \<Rightarrow> json list \<Rightarrow> jstring list option" where
  "fromSegments labels [] = Some labels"
| "fromSegments labels (seg # segs) =
     (case segmentSpeaker seg of
        None \<Rightarrow> None
      | Some None \<Rightarrow> fromSegments labels segs
      | Some (Some JNull) \<Rightarrow> fromSegments labels segs
      | Some (Some s) \<Rightarrow> fromSegments (setAdd (segmentLabel s) labels) segs)"

definition segmentsOf :: "json option \<Rightarrow> json option" where
  \<comment> \<open>\<open>diarization?.utterances || diarization?.segments || diarization?.diarization || []\<close>\<close>
  "segmentsOf diarization =
     orElse (orElse (orElse (optChain diarization (asc ''utterances''))
                       (optChain diarization (asc ''segments'')))
               (optChain diarization (asc ''diarization'')))
       (Some (JArr []))"

text \<open>
  Second tier: the lines of the transcript that carry a time range. The expression has
  the \<open>g\<close> flag only; its groups 3 and 4 are the token after the speaker word and any
  other designation.
\<close>

definition transcriptPattern :: rx where
  "transcriptPattern =
     seqs [Chr (exactly 91), Grp 1 hhmm, spaces, Chr (exactly 45), spaces, Grp 2 hhmm,
           Chr (exactly 93), spaces,
           Alt (seqs [lit speakerWord, plus (Chr isSpace), Grp 3 (plus (Chr upperAlnum))])
               (Grp 4 (plus (Chr (\<lambda>c. c \<noteq> 58)))),
           Chr (exactly 58)]"

definition group :: "jsmatch \<Rightarrow> nat \<Rightarrow> jstring option" where
  "group m n = m_groups m n"

definition transcriptLabel :: "jsmatch \<Rightarrow> jstring option" where
  "transcriptLabel m =
     (case firstTruthy (group m 3) (group m 4) of
        None \<Rightarrow> None
      | Some speakerLabel \<Rightarrow>
          if speakerLabel = [] then None
          else if idTest (trim speakerLabel) then Some (withSpeakerWord (trim speakerLabel))
          else Some (trim speakerLabel))"

definition fromTranscript :: "jstring \<Rightarrow> jstring list" where
  "fromTranscript transcript =
     foldl (\<lambda>labels m. case transcriptLabel m of None \<Rightarrow> labels | Some l \<Rightarrow> setAdd l labels)
       [] (matchAll transcriptPattern [] True transcript)"

text \<open>
  Third tier: three simpler expressions with the flags \<open>g\<close> and \<open>i\<close>; the label is the
  matched text, trimmed.
\<close>

definition simplePatterns :: "(jschar \<Rightarrow> jschar) \<Rightarrow> rx list" where
  "simplePatterns canon =
     [seqs [ilit canon speakerWord, plus (Chr isSpace), Grp 1 (plus (Chr (foldedAlnum canon)))],
      seqs [ilit canon (asc ''Speaker''), plus (Chr isSpace), Grp 1 (plus (Chr (foldedAlnum canon)))],
      seqs [ilit canon (asc ''SPEAKER_''), Grp 1 (seqs [Chr isDigit, Chr isDigit])]]"

definition fromSimplePatterns :: "(jschar \<Rightarrow> jschar) \<Rightarrow> jstring \<Rightarrow> jstring list" where
  "fromSimplePatterns canon transcript =
     foldl (\<lambda>labels pattern.
              foldl (\<lambda>labels m. setAdd (trim (m_text m)) labels) labels
                (matchAll pattern [] True transcript))
       [] (simplePatterns canon)"

definition defaultLabels :: "jstring list" where
  "defaultLabels = [withSpeakerWord (asc ''A''), withSpeakerWord (asc ''B'')]"

definition fromDiarization :: "json option \<Rightarrow> jstring list option" where
  \<comment> \<open>the first tier runs when the segments are an array (an empty one adds nothing)\<close>
  "fromDiarization diarization =
     (case segmentsOf diarization of
        Some (JArr segments) \<Rightarrow> fromSegments [] segments
      | _ \<Rightarrow> Some [])"

definition speakerLabels :: "(jschar \<Rightarrow> jschar) \<Rightarrow> json option \<Rightarrow> jstring \<Rightarrow> jstring list option" where
  "speakerLabels canon diarization transcript =
     (case fromDiarization diarization of
        None \<Rightarrow> None
      | Some labels1 \<Rightarrow>
          (let labels2 = (if labels1 = [] then fromTranscript transcript else labels1);
               labels3 = (if labels2 = [] then fromSimplePatterns canon transcript else labels2);
               labels4 = (if labels3 = [] then defaultLabels else labels3)
           in Some (sort labels4)))"

section \<open>Annotating the transcript (applyMappingToTranscript)\<close>

text \<open>
  The mapping is an object of the host; the model is the list of its entries in the
  order in which \<open>Object.entries\<close> visits them.
\<close>

type_synonym mapping = "(jstring \<times> jstring) list"

definition timePrefix :: rx where
  \<comment> \<open>\<open>(\[\d{2}:\d{2}\s*-\s*\d{2}:\d{2}\]\s*)\<close>\<close>
  "timePrefix =
     Grp 1 (seqs [Chr (exactly 91), hhmm, spaces, Chr (exactly 45), spaces, hhmm,
                  Chr (exactly 93), spaces])"

definition lineStart :: rx where
  \<comment> \<open>\<open>(^|\n)\<close>\<close>
  "lineStart = Grp 1 (Alt Bol (Chr (exactly 10)))"

definition speakerIdOf :: "(jschar \<Rightarrow> jschar) \<Rightarrow> jstring \<Rightarrow> jstring" where
  \<comment> \<open>the label without a leading speaker word: \<open>replace(/^<word>\s+/i, "").trim()\<close>\<close>
  "speakerIdOf canon speakerLabel =
     trim (replaceFirst (seqs [Bol, ilit canon speakerWord, plus (Chr isSpace)]) [] speakerLabel)"

definition wordAndId :: "(jschar \<Rightarrow> jschar) \<Rightarrow> jstring \<Rightarrow> rx" where
  \<comment> \<open>the speaker word, \<open>\s+\<close> and the escaped token\<close>
  "wordAndId canon speakerId =
     seqs [ilit canon speakerWord, plus (Chr isSpace), escapedLiteral canon speakerId]"

definition patterns :: "(jschar \<Rightarrow> jschar) \<Rightarrow> jstring \<Rightarrow> jstring \<Rightarrow> rx list" where
  "patterns canon speakerLabel speakerId =
     [seqs [timePrefix, wordAndId canon speakerId, spaces, Chr (exactly 58)],
      seqs [timePrefix, escapedLiteral canon speakerLabel, spaces, Chr (exactly 58)],
      seqs [lineStart, spaces, wordAndId canon speakerId, spaces, Chr (exactly 58)],
      seqs [lineStart, spaces, escapedLiteral canon speakerLabel, spaces, Chr (exactly 58)]]"

definition replacer :: "(jschar \<Rightarrow> jschar) \<Rightarrow> jstring \<Rightarrow> jstring \<Rightarrow> jstring
    \<Rightarrow> jstring \<Rightarrow> jstring \<Rightarrow> captures \<Rightarrow> jstring \<Rightarrow> jstring" where
  "replacer canon speakerLabel speakerId participantName bef m c aft =
     (let prefix = (case c 1 of None \<Rightarrow> [] | Some p \<Rightarrow> p)
      in if prefix \<noteq> [] \<and> trim prefix \<noteq> [] then prefix @ participantName @ [58]
         else if 58 \<in> set m
              then replaceGStr (Alt (wordAndId canon speakerId) (escapedLiteral canon speakerLabel))
                     participantName m
              else participantName @ [58])"

definition applyEntry :: "(jschar \<Rightarrow> jschar) \<Rightarrow> jstring \<Rightarrow> jstring \<times> jstring \<Rightarrow> jstring" where
  "applyEntry canon result entry =
     (let speakerLabel = fst entry; participantName = snd entry
      in if participantName = [] \<or> trim participantName = [] then result
         else
           let speakerId = speakerIdOf canon speakerLabel
           in foldl (\<lambda>result pattern.
                       replaceG pattern (replacer canon speakerLabel speakerId participantName)
                         [] True result)
                result (patterns canon speakerLabel speakerId))"

definition applyMappingToTranscript :: "(jschar \<Rightarrow> jschar) \<Rightarrow> mapping \<Rightarrow> jstring \<Rightarrow> jstring" where
  "applyMappingToTranscript canon mapping text = foldl (applyEntry canon) text mapping"

text \<open>
  Notions for stating what the annotator does to a line of the transcript. A time
  range as the expressions read it is an opening bracket, a clock text, white space, a
  dash, white space, a clock text, a closing bracket and white space; \<open>stamp\<close> puts
  one together. A clock text is two digits, a colon and two digits, and a run of blanks
  is white space without a line feed.
\<close>

definition clock :: "jstring \<Rightarrow> bool" where
  "clock t \<longleftrightarrow>
     length t = 5 \<and> isDigit (t ! 0) \<and> isDigit (t ! 1) \<and> t ! 2 = 58 \<and> isDigit (t ! 3) \<and> isDigit (t ! 4)"

definition blanks :: "jstring \<Rightarrow> bool" where
  "blanks w \<longleftrightarrow> list_all (\<lambda>c. isSpace c \<and> c \<noteq> 10) w"

definition stamp :: "jstring \<Rightarrow> jstring \<Rightarrow> jstring \<Rightarrow> jstring \<Rightarrow> jstring \<Rightarrow> jstring" where
  "stamp t1 w1 w2 t2 w3 = [91] @ t1 @ w1 @ [45] @ w2 @ t2 @ [93] @ w3"

text \<open>
  What the case folding of the host does not do: fold another code unit onto white
  space, onto the opening bracket or onto the colon.
\<close>

definition keepsApart :: "(jschar \<Rightarrow> jschar) \<Rightarrow> bool" where
  "keepsApart canon \<longleftrightarrow>
     (\<forall>c d. canon c = canon d \<and> (isSpace c \<or> c = 91 \<or> c = 58) \<longrightarrow> d = c)"

text \<open>The classes and the groups that occur in an expression.\<close>

primrec atoms :: "rx \<Rightarrow> (jschar \<Rightarrow> bool) set" where
  "atoms (Chr p) = {p}"
| "atoms Eps = {}"
| "atoms (Seq r1 r2) = atoms r1 \<union> atoms r2"
| "atoms (Alt r1 r2) = atoms r1 \<union> atoms r2"
| "atoms (Star g r) = atoms r"
| "atoms (Grp n r) = atoms r"
| "atoms Bol = {}"
| "atoms Eol = {}"

primrec groups :: "rx \<Rightarrow> nat set" where
  "groups (Chr p) = {}"
| "groups Eps = {}"
| "groups (Seq r1 r2) = groups r1 \<union> groups r2"
| "groups (Alt r1 r2) = groups r1 \<union> groups r2"
| "groups (Star g r) = groups r"
| "groups (Grp n r) = insert n (groups r)"
| "groups Bol = {}"
| "groups Eol = {}"

text \<open>
  What one run of an expression does to a state: it consumes code units that its classes
  accept, and it leaves every group alone that it does not contain.
\<close>

definition eats :: "rx \<Rightarrow> mstate \<Rightarrow> mstate \<Rightarrow> bool" where
  "eats r st st' \<longleftrightarrow>
     (\<exists>u. rest st = u @ rest st' \<and> (\<forall>x \<in> set u. \<exists>p \<in> atoms r. p x)) \<and>
     (\<forall>n. n \<notin> groups r \<longrightarrow> snd (snd st') n = snd (snd st) n)"

section \<open>The speaker-mapping editor\<close>

text \<open>
  The state of the component: the roster of participants, the mapping from speaker
  labels to participant names, and the message shown to the operator. The labels, the
  transcript and the kind of protocol come from the properties of the component.
\<close>

datatype participantType = Permanent | Temporary

record participant =
  part_id :: jstring
  part_name :: jstring
  part_role :: jstring
  part_organization :: "jstring option"
  part_type :: participantType

record editor =
  participants :: "participant list"
  mapping :: mapping
  error :: jstring
  submitting :: bool

text \<open>
  The mapping is a plain object of the host. Reading a name for which it has no entry
  of its own goes on to the prototype of all objects, whose properties are functions
  and objects, not texts. The result \<open>None\<close> of \<open>lookup\<close> stands for such a value:
  \<open>(mapping[lbl] || "")\<close> is then that value, and it has no method \<open>trim\<close>.
\<close>

definition prototypeNames :: "jstring list" where
  "prototypeNames =
     [asc ''constructor'', asc ''hasOwnProperty'', asc ''isPrototypeOf'',
      asc ''propertyIsEnumerable'', asc ''toLocaleString'', asc ''toString'', asc ''valueOf'',
      asc ''__defineGetter__'', asc ''__defineSetter__'', asc ''__lookupGetter__'',
      asc ''__lookupSetter__'', asc ''__proto__'']"

definition lookup :: "mapping \<Rightarrow> jstring \<Rightarrow> jstring option" where
  \<comment> \<open>\<open>mapping[lbl] || ""\<close>\<close>
  "lookup m lbl =
     (case map_of m lbl of
        Some v \<Rightarrow> Some v
      | None \<Rightarrow> if lbl \<in> set prototypeNames then None else Some [])"

text \<open>
  The initial mapping is filled by assignments \<open>init[label] = ...\<close>. Assigning a text
  to the name \<open>__proto__\<close> runs the setter of the prototype, which ignores a value
  that is not an object, so that no entry is made for that label.
\<close>

definition initialMapping :: "jstring list \<Rightarrow> participant list \<Rightarrow> mapping" where
  \<comment> \<open>\<open>init[label] = participants[idx]?.name || ""\<close>\<close>
  "initialMapping labels ps =
     map (\<lambda>(idx, label). (label, if idx < length ps then part_name (ps ! idx) else []))
       (filter (\<lambda>(idx, label). label \<noteq> asc ''__proto__'') (enumerate 0 labels))"

definition handleChange :: "jstring \<Rightarrow> jstring \<Rightarrow> editor \<Rightarrow> editor" where
  \<comment> \<open>\<open>{ ...prev, [speaker]: participantName }\<close>\<close>
  "handleChange speaker participantName e =
     e\<lparr> mapping := (if speaker \<in> fst ` set (mapping e)
                      then map (\<lambda>(k, v). if k = speaker then (k, participantName) else (k, v)) (mapping e)
                      else mapping e @ [(speaker, participantName)]) \<rparr>"

text \<open>
  Deleting a participant, once the operator has confirmed: the participant leaves the
  roster, and the entries of the mapping whose value is the name of the deleted
  participant are deleted.
\<close>

definition handleDelete :: "bool \<Rightarrow> jstring \<Rightarrow> editor \<Rightarrow> editor" where
  "handleDelete confirmed ident e =
     (if confirmed then
        (let deletedParticipant = find (\<lambda>p. part_id p = ident) (participants e)
         in e\<lparr> participants := filter (\<lambda>p. part_id p \<noteq> ident) (participants e),
               mapping := (case deletedParticipant of
                             None \<Rightarrow> mapping e
                           | Some d \<Rightarrow> filter (\<lambda>(k, v). v \<noteq> part_name d) (mapping e)) \<rparr>)
      else e)"

text \<open>
  Saving the dialog: a blank name is refused; otherwise the participant that is being
  edited takes the fields of the form, or a new participant is added, its identifier
  being the clock reading \<open>now\<close>.
\<close>

record formData =
  f_name :: jstring
  f_role :: jstring
  f_organization :: jstring
  f_type :: participantType

definition handleSave :: "formData \<Rightarrow> jstring option \<Rightarrow> jstring \<Rightarrow> editor \<Rightarrow> editor" where
  "handleSave form editingId now e =
     (if trim (f_name form) = [] then e
      else (case firstTruthy editingId None of
              Some ident \<Rightarrow>
                e\<lparr> participants :=
                     map (\<lambda>p. if part_id p = ident
                               then p\<lparr> part_name := f_name form, part_role := f_role form,
                                       part_organization := Some (f_organization form),
                                       part_type := f_type form \<rparr>
                               else p) (participants e) \<rparr>
            | None \<Rightarrow>
                e\<lparr> participants := participants e @
                     [\<lparr> part_id = now, part_name = f_name form, part_role = f_role form,
                        part_organization = Some (f_organization form),
                        part_type = f_type form \<rparr>] \<rparr>))"

text \<open>
  The effect that follows the property \<open>participants\<close> of the component replaces the
  roster (by the property when it is not empty, else by the stored permanent
  participants when there are any).
\<close>

definition participantsEffect :: "participant list \<Rightarrow> participant list \<Rightarrow> editor \<Rightarrow> editor" where
  "participantsEffect initialParticipants savedParticipants e =
     (if initialParticipants \<noteq> [] then e\<lparr> participants := initialParticipants \<rparr>
      else if savedParticipants \<noteq> [] then e\<lparr> participants := savedParticipants \<rparr>
      else e)"

text \<open>
  Whenever the roster has changed, the component rerenders and clears the entries of
  the mapping whose value is not empty and is the name of no participant.
\<close>

definition syncMapping :: "editor \<Rightarrow> editor" where
  "syncMapping e =
     e\<lparr> mapping := filter (\<lambda>(k, participantName).
                             \<not> (participantName \<noteq> [] \<and>
                                find (\<lambda>p. part_name p = participantName) (participants e) = None))
                      (mapping e) \<rparr>"

text \<open>
  An operation on the roster, followed by the rerendering that it causes when it has
  changed the roster. The editor starts from the roster it is given, every label being
  mapped to the participant at the same position, if there is one.
\<close>

datatype rosterOp =
    Save formData "jstring option" jstring
  | Delete bool jstring
  | Replace "participant list" "participant list"

fun rosterStep :: "rosterOp \<Rightarrow> editor \<Rightarrow> editor" where
  "rosterStep (Save form editingId now) e =
     (if trim (f_name form) = [] then e else syncMapping (handleSave form editingId now e))"
| "rosterStep (Delete confirmed ident) e =
     (if confirmed then syncMapping (handleDelete confirmed ident e) else e)"
| "rosterStep (Replace initialParticipants savedParticipants) e =
     (if initialParticipants = [] \<and> savedParticipants = [] then e
      else syncMapping (participantsEffect initialParticipants savedParticipants e))"

definition initialEditor :: "jstring list \<Rightarrow> participant list \<Rightarrow> editor" where
  "initialEditor labels ps =
     \<lparr> participants = ps, mapping = initialMapping labels ps, error = [], submitting = False \<rparr>"

inductive reachable :: "jstring list \<Rightarrow> editor \<Rightarrow> bool" for labels :: "jstring list" where
  start: "reachable labels (initialEditor labels ps)"
| roster: "reachable labels e \<Longrightarrow> reachable labels (rosterStep op e)"
| choose: "reachable labels e \<Longrightarrow> p \<in> set (participants e) \<Longrightarrow>
           reachable labels (handleChange speaker (part_name p) e)"

definition dangling :: "editor \<Rightarrow> (jstring \<times> jstring) set" where
  \<comment> \<open>the entries whose value is not empty and is the name of no participant\<close>
  "dangling e =
     {(k, v). (k, v) \<in> set (mapping e) \<and> v \<noteq> [] \<and> v \<notin> part_name ` set (participants e)}"

text \<open>Sample participants and editors for concrete runs.\<close>

definition person :: "string \<Rightarrow> string \<Rightarrow> participant" where
  "person i n =
     \<lparr> part_id = asc i, part_name = asc n, part_role = [], part_organization = None,
       part_type = Permanent \<rparr>"

definition labelA :: jstring where
  "labelA = speakerWord @ asc '' A''"

definition labelB :: jstring where
  "labelB = speakerWord @ asc '' B''"

definition sampleEditor :: "mapping \<Rightarrow> editor" where
  "sampleEditor m =
     \<lparr> participants = [person ''1'' ''John Smith'', person ''2'' ''Ann Lee''], mapping = m,
       error = [], submitting = False \<rparr>"

text \<open>
  Whether every label is mapped (allMapped), computed at every rendering. \<open>every\<close>
  stops at the first label that fails; the result \<open>None\<close> is the TypeError of calling
  \<open>trim\<close> on a value of the prototype, with which the rendering fails.
\<close>

fun everyLabel :: "mapping \<Rightarrow> jstring list \<Rightarrow> bool option" where
  "everyLabel m [] = Some True"
| "everyLabel m (lbl # labels) =
     (case lookup m lbl of
        None \<Rightarrow> None
      | Some v \<Rightarrow> if trim v \<noteq> [] then everyLabel m labels else Some False)"

definition allMapped :: "jstring list \<Rightarrow> editor \<Rightarrow> bool option" where
  "allMapped labels e = (if labels \<noteq> [] then everyLabel (mapping e) labels else Some False)"

definition assignEveryone :: jstring where
  \<comment> \<open>"Assign a participant to every speaker before generating."\<close>
  "assignEveryone =
     [1053, 1072, 1079, 1085, 1072, 1095, 1100, 1090, 1077, 32, 1091, 1095, 1072, 1089, 1090,
      1085, 1080, 1082, 1072, 32, 1076, 1083, 1103, 32, 1082, 1072, 1078, 1076, 1086, 1075,
      1086, 32, 1089, 1087, 1080, 1082, 1077, 1088, 1072, 32, 1087, 1077, 1088, 1077, 1076,
      32, 1075, 1077, 1085, 1077, 1088, 1072, 1094, 1080, 1077, 1081, 46]"

definition addSomeone :: jstring where
  \<comment> \<open>"Add at least one participant before generating."\<close>
  "addSomeone =
     [1044, 1086, 1073, 1072, 1074, 1100, 1090, 1077, 32, 1093, 1086, 1090, 1103, 32, 1073,
      1099, 32, 1086, 1076, 1085, 1086, 1075, 1086, 32, 1091, 1095, 1072, 1089, 1090, 1085,
      1080, 1082, 1072, 32, 1087, 1077, 1088, 1077, 1076, 32, 1075, 1077, 1085, 1077, 1088,
      1072, 1094, 1080, 1077, 1081, 46]"

record request =
  rq_protocolType :: jstring
  rq_participants :: "participant list"
  rq_transcript :: jstring

text \<open>
  Requesting the generation (onGenerate), up to the request that it sends. The handler
  belongs to a rendering, so there is none (\<open>None\<close>) where the rendering fails.
\<close>

definition onGenerate :: "(jschar \<Rightarrow> jschar) \<Rightarrow> jstring \<Rightarrow> jstring list \<Rightarrow> jstring \<Rightarrow> editor
    \<Rightarrow> (editor \<times> request option) option" where
  "onGenerate canon protocolType labels transcript e =
     (case allMapped labels e of
        None \<Rightarrow> None
      | Some mapped \<Rightarrow>
          Some (if \<not> mapped
                then (e\<lparr> error := assignEveryone, submitting := False \<rparr>, None)
                else if participants e = []
                then (e\<lparr> error := addSomeone, submitting := False \<rparr>, None)
                else (e\<lparr> error := [], submitting := True \<rparr>,
                      Some \<lparr> rq_protocolType = protocolType, rq_participants = participants e,
                             rq_transcript = applyMappingToTranscript canon (mapping e) transcript \<rparr>)))"

text \<open>
  The button that requests the generation is the only caller of \<open>onGenerate\<close>. It is
  rendered with \<open>disabled={submitting || !allMapped || participants.length === 0}\<close>,
  and a disabled button does not call its handler: pressing it changes nothing.
\<close>

definition generateDisabled :: "jstring list \<Rightarrow> editor \<Rightarrow> bool option" where
  "generateDisabled labels e =
     (case allMapped labels e of
        None \<Rightarrow> None
      | Some mapped \<Rightarrow> Some (submitting e \<or> \<not> mapped \<or> participants e = []))"

definition pressGenerate :: "(jschar \<Rightarrow> jschar) \<Rightarrow> jstring \<Rightarrow> jstring list \<Rightarrow> jstring \<Rightarrow> editor
    \<Rightarrow> (editor \<times> request option) option" where
  "pressGenerate canon protocolType labels transcript e =
     (case generateDisabled labels e of
        None \<Rightarrow> None
      | Some disabled \<Rightarrow>
          if disabled then Some (e, None) else onGenerate canon protocolType labels transcript e)"

definition occursIn :: "jstring \<Rightarrow> jstring \<Rightarrow> bool" where
  \<comment> \<open>\<open>s.includes(t)\<close>\<close>
  "occursIn t s = (\<exists>i \<in> set [0 ..< Suc (length s)]. take (length t) (drop i s) = t)"

section \<open>Normalising the upstream protocol (buildProtocolJson)\<close>

text \<open>
  The property \<open>protocol\<close> of the viewer component, with the fields the function reads.
  The entries of \<open>participantsData\<close> carry \<open>position\<close> in the earlier version of the
  viewer and \<open>role\<close> in the later one; the later one reads both.
\<close>

record participantData =
  pd_name :: jstring
  pd_organization :: "jstring option"
  pd_role :: "jstring option"
  pd_position :: "jstring option"

record protocol =
  p_participants :: "jstring list"
  p_date :: jstring
  p_content :: jstring
  p_summary :: jstring
  p_decisions :: "jstring list"
  p_protocolType :: "jstring option"
  p_contentJson :: "jstring option"
  p_participantsData :: "participantData list option"

record metadata =
  protocol_number :: json
  meeting_title :: json
  date :: json
  city :: json

record protocolJson =
  metadata :: metadata
  summary :: json
  decisions :: "json list"
  attendees_table :: json
  assignments_table :: "json list"

definition strOrUndef :: "jstring option \<Rightarrow> json option" where
  "strOrUndef s = map_option JStr s"

definition the_json :: "json option \<Rightarrow> json" where
  \<comment> \<open>used only where a final default makes the value defined\<close>
  "the_json a = (case a of Some j \<Rightarrow> j | None \<Rightarrow> JNull)"

text \<open>A local participant entry as the object the program passes on.\<close>

definition fieldOf :: "jstring \<Rightarrow> jstring option \<Rightarrow> (jstring \<times> json) list" where
  "fieldOf k v = (case v of None \<Rightarrow> [] | Some s \<Rightarrow> [(k, JStr s)])"

definition participantDataJson :: "participantData \<Rightarrow> json" where
  "participantDataJson p =
     JObj ([(asc ''name'', JStr (pd_name p))] @ fieldOf (asc ''organization'') (pd_organization p)
           @ fieldOf (asc ''role'') (pd_role p) @ fieldOf (asc ''position'') (pd_position p))"

text \<open>
  The coercions shared by both versions:
  \<open>Array.isArray(d) ? d : [d || placeholder]\<close> for the decisions and
  \<open>Array.isArray(t) ? t : (t ? [t] : [])\<close> for the assignments.
\<close>

definition coerceDecisions :: "json option \<Rightarrow> json list" where
  "coerceDecisions d =
     (case d of
        Some (JArr xs) \<Rightarrow> xs
      | _ \<Rightarrow> [the_json (orElse d (Some (JStr ND)))])"

definition coerceAssignments :: "json option \<Rightarrow> json list" where
  "coerceAssignments t =
     (case t of
        Some (JArr xs) \<Rightarrow> xs
      | Some j \<Rightarrow> (if truthy j then [j] else [])
      | None \<Rightarrow> [])"

definition upstreamMeta :: "json \<Rightarrow> jstring \<Rightarrow> json option" where
  \<comment> \<open>\<open>fullProtocol.k ?? fullProtocol.metadata?.k\<close>\<close>
  "upstreamMeta fp k = nullish (getProp fp k) (optChain (getProp fp (asc ''metadata'')) k)"

subsection \<open>The earlier version of the viewer\<close>

text \<open>
  The \<open>try\<close> block: \<open>None\<close> stands for an exception, which the source catches and
  answers with the fallback. Reading a property of a payload that parsed to \<open>null\<close>
  is the only TypeError this version can raise.
\<close>

definition tryBuild3 :: "(jstring \<Rightarrow> json option) \<Rightarrow> protocol \<Rightarrow> jstring \<Rightarrow> protocolJson option" where
  "tryBuild3 jsonParse protocol contentJson =
     (case jsonParse contentJson of
        None \<Rightarrow> None
      | Some JNull \<Rightarrow> None
      | Some fullProtocol \<Rightarrow>
          Some \<lparr> metadata = \<lparr>
                   protocol_number =
                     the_json (nullish (upstreamMeta fullProtocol (asc ''protocol_number'')) (Some (JStr ND))),
                   meeting_title =
                     the_json (nullish (upstreamMeta fullProtocol (asc ''meeting_title'')) (Some (JStr ND))),
                   date =
                     the_json (nullish (upstreamMeta fullProtocol (asc ''date'')) (Some (JStr (p_date protocol)))),
                   city = the_json (nullish (upstreamMeta fullProtocol (asc ''city'')) (Some (JStr ND))) \<rparr>,
                 summary = the_json (nullish (getProp fullProtocol (asc ''summary'')) (Some (JStr ND))),
                 decisions = coerceDecisions (getProp fullProtocol (asc ''decisions'')),
                 attendees_table =
                   the_json (nullish (getProp fullProtocol (asc ''attendees_table''))
                     (nullish (map_option (\<lambda>ps. JArr (map participantDataJson ps)) (p_participantsData protocol))
                        (Some (JArr [])))),
                 assignments_table = coerceAssignments (getProp fullProtocol (asc ''assignments_table'')) \<rparr>)"

definition conference :: jstring where
  \<comment> \<open>the default meeting title, the Russian word for "meeting"\<close>
  "conference = [1057, 1086, 1074, 1077, 1097, 1072, 1085, 1080, 1077]"

definition fallback3 :: "protocol \<Rightarrow> protocolJson" where
  "fallback3 protocol =
     \<lparr> metadata = \<lparr> protocol_number = JStr ND,
                    meeting_title = JStr (optStrOr (p_protocolType protocol) conference),
                    date = JStr (strOr (p_date protocol) ND),
                    city = JStr ND \<rparr>,
       summary = JStr (strOr (p_summary protocol) ND),
       decisions = map JStr (p_decisions protocol),
       attendees_table =
         (case p_participantsData protocol of
            Some ps \<Rightarrow> JArr (map participantDataJson ps)
          | None \<Rightarrow> JArr (map (\<lambda>p. JObj [(asc ''name'', JStr p), (asc ''position'', JStr ND)])
                            (p_participants protocol))),
       assignments_table = [] \<rparr>"

definition buildProtocolJson3 :: "(jstring \<Rightarrow> json option) \<Rightarrow> protocol \<Rightarrow> protocolJson" where
  "buildProtocolJson3 jsonParse protocol =
     (case p_contentJson protocol of
        None \<Rightarrow> fallback3 protocol
      | Some cj \<Rightarrow>
          if cj = [] then fallback3 protocol
          else (case tryBuild3 jsonParse protocol cj of
                  Some result \<Rightarrow> result
                | None \<Rightarrow> fallback3 protocol))"

subsection \<open>The later version of the viewer\<close>

text \<open>
  The later version merges the attendees of the payload with the local participant
  data. \<open>x && x !== placeholder && x.trim()\<close> on a payload value: calling \<open>trim\<close> on a
  truthy value that is not a string raises a TypeError (\<open>None\<close>).
\<close>

definition validField :: "json option \<Rightarrow> bool option" where
  "validField x =
     (case x of
        None \<Rightarrow> Some False
      | Some j \<Rightarrow>
          if \<not> truthy j then Some False
          else if j = JStr ND then Some False
          else (case j of JStr s \<Rightarrow> Some (trim s \<noteq> []) | _ \<Rightarrow> None))"

definition validLocal :: "jstring option \<Rightarrow> jstring" where
  \<comment> \<open>the same test on a local string, keeping the string or the empty string\<close>
  "validLocal x =
     (case x of
        None \<Rightarrow> []
      | Some s \<Rightarrow> if s \<noteq> [] \<and> s \<noteq> ND \<and> trim s \<noteq> [] then s else [])"

definition participantsDataMap :: "participantData list \<Rightarrow> (jstring \<rightharpoonup> jstring \<times> jstring)" where
  "participantsDataMap ps =
     foldl (\<lambda>m p. m(strOr (pd_name p) ND \<mapsto>
                     (validLocal (pd_organization p),
                      validLocal (firstTruthy (pd_role p) (pd_position p)))))
           Map.empty ps"

definition mapGet :: "(jstring \<rightharpoonup> jstring \<times> jstring) \<Rightarrow> json \<Rightarrow> (jstring \<times> jstring) option" where
  \<comment> \<open>the keys of the map are strings, so only a string finds an entry\<close>
  "mapGet m name = (case name of JStr s \<Rightarrow> m s | _ \<Rightarrow> None)"

definition mergedField :: "json option \<Rightarrow> jstring option \<Rightarrow> json option" where
  "mergedField x info =
     (case validField x of
        None \<Rightarrow> None
      | Some True \<Rightarrow> x
      | Some False \<Rightarrow>
          (case info of
             Some s \<Rightarrow> (if s \<noteq> [] then Some (JStr s) else Some (JStr []))
           | None \<Rightarrow> Some (JStr [])))"

definition attendeeObject :: "json \<Rightarrow> json \<Rightarrow> json \<Rightarrow> json" where
  "attendeeObject n org rl =
     JObj [(asc ''name'', n), (asc ''organization'', org), (asc ''role'', rl)]"

definition fromAttendee :: "(jstring \<rightharpoonup> jstring \<times> jstring) \<Rightarrow> json \<Rightarrow> json option" where
  "fromAttendee m a =
     (if a = JNull then None
      else
        let name = the_json (orElse (getProp a (asc ''name'')) (Some (JStr ND)));
            participantInfo = mapGet m name
        in (case mergedField (getProp a (asc ''organization'')) (map_option fst participantInfo) of
              None \<Rightarrow> None
            | Some organization \<Rightarrow>
                (case mergedField (orElse (getProp a (asc ''role'')) (getProp a (asc ''position'')))
                        (map_option snd participantInfo) of
                   None \<Rightarrow> None
                 | Some role \<Rightarrow> Some (attendeeObject name organization role))))"

definition fromParticipant :: "(jstring \<rightharpoonup> jstring \<times> jstring) \<Rightarrow> json \<Rightarrow> json option" where
  "fromParticipant m p =
     (if p = JNull then None
      else
        let name = the_json (orElse (orElse (getProp p (asc ''name'')) (getProp p (asc ''id'')))
                               (Some (JStr ND)));
            participantInfo = mapGet m name
        in (case mergedField (getProp p (asc ''organization'')) (map_option fst participantInfo) of
              None \<Rightarrow> None
            | Some organization \<Rightarrow>
                (case mergedField (getProp p (asc ''role'')) (map_option snd participantInfo) of
                   None \<Rightarrow> None
                 | Some role \<Rightarrow> Some (attendeeObject name organization role))))"

definition zeros :: jstring where
  "zeros = asc ''000''"

definition fromLocal :: "participantData \<Rightarrow> json" where
  "fromLocal p =
     attendeeObject (JStr (strOr (pd_name p) ND))
       (JStr (case pd_organization p of
                None \<Rightarrow> []
              | Some s \<Rightarrow> if s \<noteq> [] \<and> s \<noteq> ND \<and> s \<noteq> zeros then s else []))
       (JStr (optStrOr (pd_role p) []))"

text \<open>\<open>xs.map(f)\<close> where \<open>f\<close> may throw: the first exception ends the loop.\<close>

fun mapThrowing :: "('a \<Rightarrow> 'b option) \<Rightarrow> 'a list \<Rightarrow> 'b list option" where
  "mapThrowing f [] = Some []"
| "mapThrowing f (x # xs) =
     (case f x of
        None \<Rightarrow> None
      | Some y \<Rightarrow> (case mapThrowing f xs of None \<Rightarrow> None | Some ys \<Rightarrow> Some (y # ys)))"

definition attendees_data :: "protocol \<Rightarrow> json \<Rightarrow> json list option" where
  "attendees_data protocol fullProtocol =
     (let m = (case p_participantsData protocol of
                 Some ps \<Rightarrow> participantsDataMap ps
               | None \<Rightarrow> Map.empty)
      in (case getProp fullProtocol (asc ''attendees_table'') of
            Some (JArr as) \<Rightarrow> mapThrowing (fromAttendee m) as
          | _ \<Rightarrow>
              (case getProp fullProtocol (asc ''participants'') of
                 Some (JArr ps) \<Rightarrow> mapThrowing (fromParticipant m) ps
               | _ \<Rightarrow>
                   (case p_participantsData protocol of
                      Some ps \<Rightarrow> Some (map fromLocal ps)
                    | None \<Rightarrow> Some []))))"

definition moscow :: jstring where
  \<comment> \<open>the default city of the later version\<close>
  "moscow = [1075, 46, 32, 1052, 1086, 1089, 1082, 1074, 1072]"

definition tryBuild4 :: "(jstring \<Rightarrow> json option) \<Rightarrow> protocol \<Rightarrow> jstring \<Rightarrow> protocolJson option" where
  "tryBuild4 jsonParse protocol jsonString =
     (case jsonParse jsonString of
        None \<Rightarrow> None
      | Some JNull \<Rightarrow> None
      | Some fullProtocol \<Rightarrow>
          (case attendees_data protocol fullProtocol of
             None \<Rightarrow> None
           | Some attendees \<Rightarrow>
               Some \<lparr> metadata = \<lparr>
                        protocol_number =
                          the_json (nullish (upstreamMeta fullProtocol (asc ''protocol_number'')) (Some (JStr ND))),
                        meeting_title =
                          the_json (nullish (upstreamMeta fullProtocol (asc ''meeting_title'')) (Some (JStr ND))),
                        date =
                          the_json (nullish (upstreamMeta fullProtocol (asc ''date''))
                                      (Some (JStr (p_date protocol)))),
                        city =
                          the_json (nullish (upstreamMeta fullProtocol (asc ''city'')) (Some (JStr moscow))) \<rparr>,
                      summary = the_json (nullish (getProp fullProtocol (asc ''summary'')) (Some (JStr ND))),
                      decisions = coerceDecisions (getProp fullProtocol (asc ''decisions'')),
                      attendees_table =
                        (if attendees \<noteq> [] then JArr attendees
                         else (case p_participantsData protocol of
                                 Some ps \<Rightarrow> JArr (map participantDataJson ps)
                               | None \<Rightarrow> JArr [])),
                      assignments_table =
                        coerceAssignments (getProp fullProtocol (asc ''assignments_table'')) \<rparr>))"

definition fallback4 :: "protocol \<Rightarrow> protocolJson" where
  "fallback4 protocol =
     \<lparr> metadata = \<lparr> protocol_number = JStr ND,
                    meeting_title = JStr (optStrOr (p_protocolType protocol) conference),
                    date = JStr (strOr (p_date protocol) ND),
                    city = JStr moscow \<rparr>,
       summary = JStr (strOr (p_summary protocol) ND),
       decisions = map JStr (p_decisions protocol),
       attendees_table =
         (case p_participantsData protocol of
            Some ps \<Rightarrow>
              JArr (map (\<lambda>p. attendeeObject (JStr (strOr (pd_name p) ND))
                               (JStr (optStrOr (pd_organization p) []))
                               (JStr (optStrOr (pd_role p) []))) ps)
          | None \<Rightarrow>
              JArr (map (\<lambda>p. JObj [(asc ''name'', JStr p), (asc ''role'', JStr []),
                                    (asc ''organization'', JStr [])])
                        (p_participants protocol))),
       assignments_table = [] \<rparr>"

definition jsonString :: "protocol \<Rightarrow> jstring option" where
  \<comment> \<open>the text to parse: \<open>contentJson\<close>, else a \<open>content\<close> that looks like JSON\<close>
  "jsonString protocol =
     (case firstTruthy (p_contentJson protocol) None of
        Some cj \<Rightarrow> Some cj
      | None \<Rightarrow>
          (let trimmedContent = trim (p_content protocol)
           in if p_content protocol \<noteq> [] \<and> trimmedContent \<noteq> []
                 \<and> (hd trimmedContent = 123 \<or> hd trimmedContent = 91)
              then Some trimmedContent else None))"

definition buildProtocolJson4 :: "(jstring \<Rightarrow> json option) \<Rightarrow> protocol \<Rightarrow> protocolJson" where
  "buildProtocolJson4 jsonParse protocol =
     (case jsonString protocol of
        None \<Rightarrow> fallback4 protocol
      | Some js \<Rightarrow>
          (case tryBuild4 jsonParse protocol js of
             Some result \<Rightarrow> result
           | None \<Rightarrow> fallback4 protocol))"

section \<open>Numbering the protocol\<close>

text \<open>
  \<open>getProtocols()\<close> asks the store for the list of saved protocols: \<open>Some n\<close> is a list
  of \<open>n\<close> protocols, \<open>None\<close> a rejected request. The number is
  \<open>String((existingProtocols.length || 0) + 1)\<close>, and the title line of the document is
  the Cyrillic word for "protocol", the numero sign and the number.
\<close>

definition numberFrom :: "nat \<Rightarrow> jstring" where
  "numberFrom n = natToString ((if n = 0 then 0 else n) + 1)"

definition titleLine :: "protocolJson \<Rightarrow> jstring" where
  "titleLine parsed =
     [1055, 1056, 1054, 1058, 1054, 1050, 1054, 1051, 32, 8470, 32]
       @ String_json (protocol_number (metadata parsed))"

text \<open>
  The earlier version (\<open>handleDownload\<close>): the lookup runs inside the handler, then the
  payload is normalised and its number overwritten.
\<close>

definition handleDownload3 ::
  "nat option \<Rightarrow> (jstring \<Rightarrow> json option) \<Rightarrow> protocol \<Rightarrow> protocolJson" where
  "handleDownload3 getProtocols jsonParse protocol =
     (let protocolNumber = (case getProtocols of Some n \<Rightarrow> numberFrom n | None \<Rightarrow> ND);
          parsed = buildProtocolJson3 jsonParse protocol
      in parsed\<lparr> metadata := (metadata parsed)\<lparr> protocol_number := JStr protocolNumber \<rparr> \<rparr>)"

text \<open>
  The later version keeps the number in the state of the component. The effect that
  runs when the component receives its protocol stores the number once its lookup is
  answered; \<open>generateDocument\<close> asks the store again only while the state still holds
  the placeholder. The edited fields it copies into the model afterwards do not touch
  the number and are left out.
\<close>

definition effectResolved :: "jstring \<Rightarrow> nat option \<Rightarrow> jstring" where
  "effectResolved protocolNumber getProtocols =
     (case getProtocols of Some n \<Rightarrow> numberFrom n | None \<Rightarrow> protocolNumber)"

definition generateDocument4 ::
  "jstring \<Rightarrow> nat option \<Rightarrow> (jstring \<Rightarrow> json option) \<Rightarrow> protocol \<Rightarrow> jstring \<times> protocolJson" where
  "generateDocument4 protocolNumber getProtocols jsonParse protocol =
     (let currentProtocolNumber =
            (if protocolNumber = ND
             then (case getProtocols of Some n \<Rightarrow> numberFrom n | None \<Rightarrow> protocolNumber)
             else protocolNumber);
          parsed = buildProtocolJson4 jsonParse protocol
      in (currentProtocolNumber,
          parsed\<lparr> metadata := (metadata parsed)\<lparr> protocol_number := JStr currentProtocolNumber \<rparr> \<rparr>))"

text \<open>
  Sample inputs for concrete runs: a viewer property without local data whose
  \<open>contentJson\<close> is the given text, and a host whose \<open>JSON.parse\<close> reads the one text
  \<open>t\<close> as the value \<open>v\<close>.
\<close>

definition sampleProtocol :: "jstring \<Rightarrow> protocol" where
  "sampleProtocol t =
     \<lparr> p_participants = [asc ''Ann''], p_date = asc ''2025-11-23'', p_content = [],
       p_summary = [], p_decisions = [], p_protocolType = None, p_contentJson = Some t,
       p_participantsData = None \<rparr>"

definition parsesTo :: "jstring \<Rightarrow> json \<Rightarrow> jstring \<Rightarrow> json option" where
  "parsesTo t v s = (if s = t then Some v else None)"

definition quoted :: "string \<Rightarrow> jstring" where
  \<comment> \<open>an ASCII literal between double quotes\<close>
  "quoted s = [34] @ asc s @ [34]"

definition scalarDecisionsText :: jstring where
  "scalarDecisionsText = asc ''{'' @ quoted ''decisions'' @ asc '': '' @ quoted ''Approved budget'' @ asc ''}''"

definition scalarDecisionsValue :: json where
  "scalarDecisionsValue = JObj [(asc ''decisions'', JStr (asc ''Approved budget''))]"

definition emptyDecisionsText :: jstring where
  "emptyDecisionsText = asc ''{'' @ quoted ''decisions'' @ asc '': []}''"

definition emptyDecisionsValue :: json where
  "emptyDecisionsValue = JObj [(asc ''decisions'', JArr [])]"

definition numberedText :: jstring where
  "numberedText = asc ''{'' @ quoted ''protocol_number'' @ asc '': 77}''"

definition numberedValue :: json where
  "numberedValue = JObj [(asc ''protocol_number'', JNum 77)]"

section \<open>Verified properties\<close>

subsection \<open>Decimal rendering\<close>

lemma natToString_two_digits:
  assumes "d < 100"
  shows "padStart2 (natToString d) = [48 + int (d div 10), 48 + int (d mod 10)]"
proof (cases "d < 10")
  case True
  then show ?thesis by (simp add: natToString.simps [of d] padStart2_def)
next
  case False
  with assms have "d div 10 < 10" by simp
  with False show ?thesis
    by (simp add: natToString.simps [of d] natToString.simps [of "d div 10"] padStart2_def)
qed

lemma natToString_length_le:
  "n < 10 ^ k \<Longrightarrow> 0 < k \<Longrightarrow> length (natToString n) \<le> k"
proof (induction n arbitrary: k rule: natToString.induct)
  case (1 n)
  show ?case
  proof (cases "n < 10")
    case True
    with 1 show ?thesis by (simp add: natToString.simps [of n])
  next
    case False
    then obtain j where k: "k = Suc j" using 1 by (cases k) auto
    have "0 < j" using False 1 k by (cases j) auto
    moreover have "n div 10 < 10 ^ j" using 1(2) k by (simp add: less_mult_imp_div_less mult.commute)
    ultimately have "length (natToString (n div 10)) \<le> j" using 1(1) [OF False] by simp
    with False k show ?thesis by (simp add: natToString.simps [of n])
  qed
qed

lemma natToString_length_ge:
  "10 ^ k \<le> n \<Longrightarrow> k < length (natToString n)"
proof (induction n arbitrary: k rule: natToString.induct)
  case (1 n)
  show ?case
  proof (cases "n < 10")
    case True
    have "k = 0"
    proof (cases k)
      case (Suc j)
      have "(1::nat) \<le> 10 ^ j" by simp
      then have "(10::nat) \<le> 10 * 10 ^ j" by linarith
      with 1(2) True Suc show ?thesis by simp
    qed simp
    with True show ?thesis by (simp add: natToString.simps [of n])
  next
    case False
    show ?thesis
    proof (cases k)
      case 0
      with False show ?thesis by (simp add: natToString.simps [of n])
    next
      case (Suc j)
      have "10 ^ j \<le> n div 10" using 1(2) Suc by (simp add: less_eq_div_iff_mult_less_eq mult.commute)
      then have "j < length (natToString (n div 10))" using 1(1) [OF False] by simp
      with False Suc show ?thesis by (simp add: natToString.simps [of n])
    qed
  qed
qed

lemma natToString_digits: "list_all isDigit (natToString n)"
proof (induction n rule: natToString.induct)
  case (1 n)
  show ?case
  proof (cases "n < 10")
    case True
    then show ?thesis by (simp add: natToString.simps [of n] isDigit_def)
  next
    case False
    have "n mod 10 < 10" by simp
    then have "isDigit (48 + int (n mod 10))" unfolding isDigit_def by linarith
    with False 1 show ?thesis by (simp add: natToString.simps [of n])
  qed
qed

lemma intToString_four_digits:
  assumes "1000 \<le> y" and "y \<le> 9999"
  shows "length (intToString y) = 4 \<and> list_all isDigit (intToString y)"
proof -
  have "nat y < 10 ^ 4" and "10 ^ 3 \<le> nat y" using assms by simp_all
  then have "length (natToString (nat y)) \<le> 4" and "3 < length (natToString (nat y))"
    using natToString_length_le [of "nat y" 4] natToString_length_ge [of 3 "nat y"] by simp_all
  then show ?thesis using assms by (simp add: intToString_def natToString_digits)
qed

subsection \<open>The date renderer\<close>

text \<open>
  Claim C7 as stated fails: a text that the host cannot read as a date is returned as
  it is, not as the placeholder.
\<close>

theorem formatDateForProtocol_unparsable_counterexample:
  "isoDateHost (asc ''not a date'') = InvalidDate \<and>
   formatDateForProtocol isoDateHost (Some (asc ''not a date'')) = asc ''not a date'' \<and>
   formatDateForProtocol isoDateHost (Some (asc ''not a date'')) \<noteq> ND"
  by (simp add: formatDateForProtocol_def isoDateHost_def asc_def ND_def)

text \<open>
  Claim C7, amended: an absent, empty or placeholder value renders as the placeholder;
  a text the host rejects is returned unchanged; a text the host reads as a date renders
  as the two-digit day, a dot, the two-digit month, a dot and the decimal year, which is
  the form dd.mm.yyyy for the years 1000 to 9999.
\<close>

theorem formatDateForProtocol_rendering:
  "formatDateForProtocol newDate None = ND \<and>
   formatDateForProtocol newDate (Some []) = ND \<and>
   formatDateForProtocol newDate (Some ND) = ND \<and>
   (s \<noteq> [] \<and> s \<noteq> ND \<and> newDate s = InvalidDate \<longrightarrow>
      formatDateForProtocol newDate (Some s) = s) \<and>
   (s \<noteq> [] \<and> s \<noteq> ND \<and> newDate s = LocalDate y m d \<and> d < 100 \<and> m < 99 \<longrightarrow>
      formatDateForProtocol newDate (Some s) =
        [48 + int (d div 10), 48 + int (d mod 10), 46,
         48 + int ((m + 1) div 10), 48 + int ((m + 1) mod 10), 46]
          @ intToString y) \<and>
   (1000 \<le> y \<and> y \<le> 9999 \<longrightarrow> length (intToString y) = 4 \<and> list_all isDigit (intToString y))"
  using natToString_two_digits [of d] natToString_two_digits [of "m + 1"]
    intToString_four_digits [of y]
  by (simp add: formatDateForProtocol_def)

theorem formatDateForProtocol_rendering_witness:
  "asc ''not a date'' \<noteq> [] \<and> asc ''not a date'' \<noteq> ND \<and>
   isoDateHost (asc ''not a date'') = InvalidDate \<and>
   formatDateForProtocol isoDateHost (Some (asc ''not a date'')) = asc ''not a date'' \<and>
   asc ''2025-11-23'' \<noteq> [] \<and> asc ''2025-11-23'' \<noteq> ND \<and>
   isoDateHost (asc ''2025-11-23'') = LocalDate 2025 10 23 \<and>
   formatDateForProtocol isoDateHost (Some (asc ''2025-11-23'')) = asc ''23.11.2025'' \<and>
   length (intToString 2025) = 4"
proof -
  have inv: "isoDateHost (asc ''not a date'') = InvalidDate"
    by (simp add: isoDateHost_def asc_def)
  have ok: "isoDateHost (asc ''2025-11-23'') = LocalDate 2025 10 23"
    by (simp add: isoDateHost_def asc_def isDigit_def digitsToNat_def daysInMonth_def)
  have y: "intToString 2025 = asc ''2025''"
    by (simp add: intToString_def natToString.simps asc_def)
  have ne: "asc ''not a date'' \<noteq> [] \<and> asc ''not a date'' \<noteq> ND \<and>
      asc ''2025-11-23'' \<noteq> [] \<and> asc ''2025-11-23'' \<noteq> ND"
    by (simp add: asc_def ND_def)
  from formatDateForProtocol_rendering [of isoDateHost "asc ''not a date''" 2025 10 23]
    formatDateForProtocol_rendering [of isoDateHost "asc ''2025-11-23''" 2025 10 23]
    inv ok y ne
  show ?thesis by (simp add: asc_def)
qed

subsection \<open>The decisions of the normalised model\<close>

lemmas sample_defs =
  sampleProtocol_def parsesTo_def quoted_def asc_def ND_def
  scalarDecisionsText_def scalarDecisionsValue_def emptyDecisionsText_def
  emptyDecisionsValue_def numberedText_def numberedValue_def

lemmas build_defs =
  buildProtocolJson3_def tryBuild3_def fallback3_def buildProtocolJson4_def tryBuild4_def
  fallback4_def jsonString_def attendees_data_def firstTruthy_def coerceDecisions_def
  coerceAssignments_def upstreamMeta_def nullish_def optChain_def orElse_def the_json_def
  strOr_def optStrOr_def

lemma tryBuild3_decisions:
  assumes "tryBuild3 jsonParse protocol js = Some r"
  shows "\<exists>fp. jsonParse js = Some fp \<and> decisions r = coerceDecisions (getProp fp (asc ''decisions''))"
proof (cases "jsonParse js")
  case None
  with assms show ?thesis by (simp add: tryBuild3_def)
next
  case (Some fp)
  with assms have "decisions r = coerceDecisions (getProp fp (asc ''decisions''))"
    by (cases fp) (auto simp: tryBuild3_def)
  with Some show ?thesis by simp
qed

lemma tryBuild4_decisions:
  assumes "tryBuild4 jsonParse protocol js = Some r"
  shows "\<exists>fp. jsonParse js = Some fp \<and> decisions r = coerceDecisions (getProp fp (asc ''decisions''))"
proof (cases "jsonParse js")
  case None
  with assms show ?thesis by (simp add: tryBuild4_def)
next
  case (Some fp)
  with assms have "decisions r = coerceDecisions (getProp fp (asc ''decisions''))"
    by (cases fp) (auto simp: tryBuild4_def split: option.splits)
  with Some show ?thesis by simp
qed

lemma coerceDecisions_scalar:
  assumes "\<not> isArray d"
  shows "coerceDecisions d = [case d of Some j \<Rightarrow> if truthy j then j else JStr ND | None \<Rightarrow> JStr ND]"
proof (cases d)
  case None
  then show ?thesis by (simp add: coerceDecisions_def orElse_def the_json_def)
next
  case (Some j)
  with assms show ?thesis
    by (cases j) (simp_all add: coerceDecisions_def orElse_def the_json_def isArray_def)
qed

text \<open>
  Claim C5 as stated fails: an upstream payload whose decisions are the empty array
  yields an empty decisions list, in both versions of the viewer.
\<close>

theorem decisions_empty_counterexample:
  "decisions (buildProtocolJson3 (parsesTo emptyDecisionsText emptyDecisionsValue)
                (sampleProtocol emptyDecisionsText)) = [] \<and>
   decisions (buildProtocolJson4 (parsesTo emptyDecisionsText emptyDecisionsValue)
                (sampleProtocol emptyDecisionsText)) = []"
  by (simp add: build_defs sample_defs)

text \<open>
  Claim C5, amended: when the payload is parsed and used, decisions that are not an
  array are wrapped into a one-element list (the value itself when it is truthy, the
  placeholder otherwise, also when the field is absent), and an array is passed on
  unchanged, so that only the empty array yields an empty list; when the payload cannot
  be used, the decisions are the locally held list.
\<close>

theorem decisions_coerced:
  "(tryBuild3 jsonParse protocol js = Some r \<longrightarrow>
      (\<exists>fp. jsonParse js = Some fp \<and> decisions r = coerceDecisions (getProp fp (asc ''decisions'')))) \<and>
   (tryBuild4 jsonParse protocol js = Some r \<longrightarrow>
      (\<exists>fp. jsonParse js = Some fp \<and> decisions r = coerceDecisions (getProp fp (asc ''decisions'')))) \<and>
   (buildProtocolJson3 jsonParse protocol \<noteq> fallback3 protocol \<longrightarrow>
      (\<exists>cj. p_contentJson protocol = Some cj \<and>
            tryBuild3 jsonParse protocol cj = Some (buildProtocolJson3 jsonParse protocol))) \<and>
   (buildProtocolJson4 jsonParse protocol \<noteq> fallback4 protocol \<longrightarrow>
      (\<exists>cj. jsonString protocol = Some cj \<and>
            tryBuild4 jsonParse protocol cj = Some (buildProtocolJson4 jsonParse protocol))) \<and>
   decisions (fallback3 protocol) = map JStr (p_decisions protocol) \<and>
   decisions (fallback4 protocol) = map JStr (p_decisions protocol) \<and>
   (\<not> isArray d \<longrightarrow>
      coerceDecisions d = [case d of Some j \<Rightarrow> if truthy j then j else JStr ND | None \<Rightarrow> JStr ND]) \<and>
   coerceDecisions (Some (JArr xs)) = xs \<and>
   (coerceDecisions d = [] \<longleftrightarrow> d = Some (JArr []))"
proof -
  have a: "buildProtocolJson3 jsonParse protocol \<noteq> fallback3 protocol \<longrightarrow>
      (\<exists>cj. p_contentJson protocol = Some cj \<and>
            tryBuild3 jsonParse protocol cj = Some (buildProtocolJson3 jsonParse protocol))"
    by (auto simp: buildProtocolJson3_def split: option.splits if_splits)
  have b: "buildProtocolJson4 jsonParse protocol \<noteq> fallback4 protocol \<longrightarrow>
      (\<exists>cj. jsonString protocol = Some cj \<and>
            tryBuild4 jsonParse protocol cj = Some (buildProtocolJson4 jsonParse protocol))"
    by (auto simp: buildProtocolJson4_def split: option.splits)
  have c: "coerceDecisions d = [] \<longleftrightarrow> d = Some (JArr [])"
  proof (cases "isArray d")
    case True
    then show ?thesis by (auto simp: isArray_def coerceDecisions_def split: option.splits json.splits)
  next
    case False
    then have "d \<noteq> Some (JArr [])" by (auto simp: isArray_def)
    with coerceDecisions_scalar [OF False] show ?thesis by simp
  qed
  show ?thesis
    using tryBuild3_decisions [of jsonParse protocol js r]
      tryBuild4_decisions [of jsonParse protocol js r] a b c coerceDecisions_scalar [of d]
    by (simp add: fallback3_def fallback4_def coerceDecisions_def)
qed

theorem decisions_coerced_witness:
  "tryBuild3 (parsesTo scalarDecisionsText scalarDecisionsValue) (sampleProtocol scalarDecisionsText)
     scalarDecisionsText \<noteq> None \<and>
   tryBuild4 (parsesTo scalarDecisionsText scalarDecisionsValue) (sampleProtocol scalarDecisionsText)
     scalarDecisionsText \<noteq> None \<and>
   buildProtocolJson3 (parsesTo scalarDecisionsText scalarDecisionsValue) (sampleProtocol scalarDecisionsText)
     \<noteq> fallback3 (sampleProtocol scalarDecisionsText) \<and>
   buildProtocolJson4 (parsesTo scalarDecisionsText scalarDecisionsValue) (sampleProtocol scalarDecisionsText)
     \<noteq> fallback4 (sampleProtocol scalarDecisionsText) \<and>
   \<not> isArray (Some (JStr (asc ''Approved budget''))) \<and>
   decisions (buildProtocolJson3 (parsesTo scalarDecisionsText scalarDecisionsValue)
                (sampleProtocol scalarDecisionsText)) = [JStr (asc ''Approved budget'')] \<and>
   decisions (buildProtocolJson4 (parsesTo scalarDecisionsText scalarDecisionsValue)
                (sampleProtocol scalarDecisionsText)) = [JStr (asc ''Approved budget'')] \<and>
   coerceDecisions (Some (JStr (asc ''Approved budget''))) = [JStr (asc ''Approved budget'')]"
proof -
  let ?jp = "parsesTo scalarDecisionsText scalarDecisionsValue"
  let ?p = "sampleProtocol scalarDecisionsText"
  have t3: "tryBuild3 ?jp ?p scalarDecisionsText = Some (buildProtocolJson3 ?jp ?p)"
    by (simp add: build_defs sample_defs)
  have t4: "tryBuild4 ?jp ?p scalarDecisionsText = Some (buildProtocolJson4 ?jp ?p)"
    by (simp add: build_defs sample_defs)
  have n3: "buildProtocolJson3 ?jp ?p \<noteq> fallback3 ?p"
  proof
    assume "buildProtocolJson3 ?jp ?p = fallback3 ?p"
    then have "decisions (buildProtocolJson3 ?jp ?p) = decisions (fallback3 ?p)" by simp
    then show False by (simp add: build_defs sample_defs)
  qed
  have n4: "buildProtocolJson4 ?jp ?p \<noteq> fallback4 ?p"
  proof
    assume "buildProtocolJson4 ?jp ?p = fallback4 ?p"
    then have "decisions (buildProtocolJson4 ?jp ?p) = decisions (fallback4 ?p)" by simp
    then show False by (simp add: build_defs sample_defs)
  qed
  have g: "getProp scalarDecisionsValue (asc ''decisions'') = Some (JStr (asc ''Approved budget''))"
    by (simp add: sample_defs)
  have jp: "?jp scalarDecisionsText = Some scalarDecisionsValue"
    by (simp add: parsesTo_def)
  have na: "\<not> isArray (Some (JStr (asc ''Approved budget'')))"
    by (simp add: isArray_def)
  have tr: "truthy (JStr (asc ''Approved budget''))"
    by (simp add: asc_def)
  from decisions_coerced [of ?jp ?p scalarDecisionsText "buildProtocolJson3 ?jp ?p"
      "Some (JStr (asc ''Approved budget''))" "[]"]
    decisions_coerced [of ?jp ?p scalarDecisionsText "buildProtocolJson4 ?jp ?p"
      "Some (JStr (asc ''Approved budget''))" "[]"]
    t3 t4 n3 n4 g jp na tr
  show ?thesis by simp
qed

subsection \<open>The number of the protocol\<close>

text \<open>
  Claim C4 as stated fails for the later version: a number stored in the state of the
  component when it was mounted (here with three saved protocols) is used as it is,
  although the store holds five protocols when the document is generated.
\<close>

theorem protocol_number_cached_counterexample:
  "effectResolved ND (Some 3) = asc ''4'' \<and>
   titleLine (snd (generateDocument4 (effectResolved ND (Some 3)) (Some 5)
                     (parsesTo numberedText numberedValue) (sampleProtocol numberedText)))
     = [1055, 1056, 1054, 1058, 1054, 1050, 1054, 1051, 32, 8470, 32] @ asc ''4'' \<and>
   numberFrom 5 = asc ''6''"
  by (simp add: effectResolved_def generateDocument4_def titleLine_def numberFrom_def
      natToString.simps asc_def ND_def Let_def)

text \<open>
  Claim C4, amended: the number in the title never comes from the payload. In the
  earlier version it is the number of saved protocols plus one, looked up immediately
  before the document is assembled, or the placeholder when the lookup fails. In the
  later version the number held in the state of the component is used when it is not
  the placeholder (the effect stores there the number of saved protocols plus one when
  its own lookup succeeds); only while the state holds the placeholder is the store
  asked immediately before assembly, with the placeholder kept on failure.
\<close>

theorem protocol_number_source:
  "protocol_number (metadata (handleDownload3 getProtocols jsonParse protocol))
     = JStr (case getProtocols of Some n \<Rightarrow> natToString (n + 1) | None \<Rightarrow> ND) \<and>
   titleLine (handleDownload3 getProtocols jsonParse protocol)
     = [1055, 1056, 1054, 1058, 1054, 1050, 1054, 1051, 32, 8470, 32]
         @ (case getProtocols of Some n \<Rightarrow> natToString (n + 1) | None \<Rightarrow> ND) \<and>
   (protocolNumber = ND \<longrightarrow>
      titleLine (snd (generateDocument4 protocolNumber getProtocols jsonParse protocol))
        = [1055, 1056, 1054, 1058, 1054, 1050, 1054, 1051, 32, 8470, 32]
            @ (case getProtocols of Some n \<Rightarrow> natToString (n + 1) | None \<Rightarrow> ND)) \<and>
   (protocolNumber \<noteq> ND \<longrightarrow>
      titleLine (snd (generateDocument4 protocolNumber getProtocols jsonParse protocol))
        = [1055, 1056, 1054, 1058, 1054, 1050, 1054, 1051, 32, 8470, 32] @ protocolNumber) \<and>
   fst (generateDocument4 protocolNumber getProtocols jsonParse protocol)
     = String_json (protocol_number (metadata (snd (generateDocument4 protocolNumber getProtocols
                                                       jsonParse protocol)))) \<and>
   effectResolved protocolNumber (Some n) = natToString (n + 1) \<and>
   effectResolved protocolNumber None = protocolNumber"
  by (cases getProtocols)
     (simp_all add: handleDownload3_def generateDocument4_def titleLine_def numberFrom_def
        effectResolved_def Let_def)

theorem protocol_number_source_witness:
  "titleLine (handleDownload3 (Some 5) (parsesTo numberedText numberedValue) (sampleProtocol numberedText))
     = [1055, 1056, 1054, 1058, 1054, 1050, 1054, 1051, 32, 8470, 32] @ asc ''6'' \<and>
   titleLine (snd (generateDocument4 ND (Some 5) (parsesTo numberedText numberedValue)
                     (sampleProtocol numberedText)))
     = [1055, 1056, 1054, 1058, 1054, 1050, 1054, 1051, 32, 8470, 32] @ asc ''6'' \<and>
   asc ''4'' \<noteq> ND \<and>
   titleLine (snd (generateDocument4 (asc ''4'') (Some 5) (parsesTo numberedText numberedValue)
                     (sampleProtocol numberedText)))
     = [1055, 1056, 1054, 1058, 1054, 1050, 1054, 1051, 32, 8470, 32] @ asc ''4''"
proof -
  have six: "natToString (5 + 1) = asc ''6''"
    by (simp add: natToString.simps asc_def)
  have ne: "asc ''4'' \<noteq> ND"
    by (simp add: asc_def ND_def)
  from protocol_number_source [of "Some 5" "parsesTo numberedText numberedValue"
      "sampleProtocol numberedText" ND 0]
    protocol_number_source [of "Some 5" "parsesTo numberedText numberedValue"
      "sampleProtocol numberedText" "asc ''4''" 0]
    six ne
  show ?thesis by simp
qed

subsection \<open>The mapping never dangles\<close>

lemma dangling_syncMapping: "dangling (syncMapping e) = {}"
  by (auto simp: dangling_def syncMapping_def find_None_iff image_iff)

lemma dangling_initialEditor: "dangling (initialEditor labels ps) = {}"
proof -
  have "v = [] \<or> v \<in> part_name ` set ps" if "(k, v) \<in> set (initialMapping labels ps)" for k v
  proof -
    from that obtain idx where "v = (if idx < length ps then part_name (ps ! idx) else [])"
      by (auto simp: initialMapping_def)
    then show ?thesis by (cases "idx < length ps") auto
  qed
  then show ?thesis by (auto simp: dangling_def initialEditor_def)
qed

lemma dangling_rosterStep:
  assumes "dangling e = {}"
  shows "dangling (rosterStep op e) = {}"
  using assms by (cases op) (simp_all add: dangling_syncMapping)

lemma dangling_handleChange:
  assumes "dangling e = {}" and "p \<in> set (participants e)"
  shows "dangling (handleChange speaker (part_name p) e) = {}"
proof -
  have old: "v = [] \<or> v \<in> part_name ` set (participants e)" if "(k, v) \<in> set (mapping e)" for k v
    using assms(1) that by (auto simp: dangling_def)
  have "v = [] \<or> v \<in> part_name ` set (participants e)"
    if "(k, v) \<in> set (mapping (handleChange speaker (part_name p) e))" for k v
  proof (cases "speaker \<in> fst ` set (mapping e)")
    case True
    with that obtain k' v' where "(k', v') \<in> set (mapping e)"
      and "(k, v) = (if k' = speaker then (k', part_name p) else (k', v'))"
      by (auto simp: handleChange_def)
    with old [of k' v'] assms(2) show ?thesis by (cases "k' = speaker") auto
  next
    case False
    with that have "(k, v) \<in> set (mapping e) \<or> v = part_name p"
      by (auto simp: handleChange_def)
    with old [of k v] assms(2) show ?thesis by auto
  qed
  then show ?thesis by (auto simp: dangling_def handleChange_def)
qed

lemma reachable_dangling:
  assumes "reachable labels e"
  shows "dangling e = {}"
  using assms
proof (induction rule: reachable.induct)
  case (start ps)
  show ?case by (rule dangling_initialEditor)
next
  case (roster e op)
  then show ?case by (simp add: dangling_rosterStep)
next
  case (choose e p speaker)
  then show ?case by (simp add: dangling_handleChange)
qed

lemma handleDelete_removes:
  assumes "find (\<lambda>p. part_id p = ident) (participants e) = Some d"
  shows "part_name d \<notin> snd ` set (mapping (handleDelete True ident e))"
  using assms by (auto simp: handleDelete_def)

lemma handleDelete_keeps_invariant:
  assumes "dangling e = {}" and "distinct (map part_id (participants e))"
  shows "dangling (handleDelete confirmed ident e) = {}"
proof (cases "confirmed")
  case False
  with assms show ?thesis by (simp add: handleDelete_def)
next
  case True
  show ?thesis
  proof (cases "find (\<lambda>p. part_id p = ident) (participants e)")
    case None
    then have "filter (\<lambda>p. part_id p \<noteq> ident) (participants e) = participants e"
      by (auto simp: find_None_iff filter_id_conv)
    with None True assms(1) show ?thesis
      by (auto simp: handleDelete_def dangling_def)
  next
    case (Some d)
    then have d: "d \<in> set (participants e)" "part_id d = ident"
      by (auto simp: find_Some_iff)
    have uniq: "p = d" if "p \<in> set (participants e)" "part_id p = ident" for p
      using that d assms(2) by (auto simp: distinct_map inj_on_def)
    have "False" if kv: "(k, v) \<in> set (mapping e)" "v \<noteq> part_name d" "v \<noteq> []"
      and out: "v \<notin> part_name ` set (filter (\<lambda>p. part_id p \<noteq> ident) (participants e))" for k v
    proof -
      from assms(1) kv obtain p where p: "p \<in> set (participants e)" "part_name p = v"
        by (auto simp: dangling_def)
      with out have "part_id p = ident" by (auto simp: image_iff)
      with p uniq have "p = d" by simp
      with p kv show False by simp
    qed
    with Some True show ?thesis
      by (auto simp: handleDelete_def dangling_def)
  qed
qed

text \<open>
  Claim C10: in every state that the editor can reach (from its initial state, by
  operations on the roster, each followed by the rerendering it causes, and by choosing
  a participant of the roster for a speaker), every entry of the mapping that is not
  empty names a participant of the current roster, also after one more operation on the
  roster. Deleting a participant removes every entry whose value is the name of that
  participant, and where the identifiers of the roster are distinct this alone keeps the
  mapping from dangling.
\<close>

theorem mapping_never_dangles:
  assumes "reachable labels e"
  shows "dangling e = {} \<and> dangling (rosterStep op e) = {} \<and>
    (find (\<lambda>p. part_id p = ident) (participants e) = Some d \<longrightarrow>
       part_name d \<notin> snd ` set (mapping (handleDelete True ident e))) \<and>
    (distinct (map part_id (participants e)) \<longrightarrow> dangling (handleDelete confirmed ident e) = {})"
  using reachable_dangling [OF assms] dangling_rosterStep [of e op]
    handleDelete_removes [of ident e d] handleDelete_keeps_invariant [of e confirmed ident]
  by simp

theorem mapping_never_dangles_witness:
  "reachable [labelA, labelB]
     (initialEditor [labelA, labelB] [person ''1'' ''John Smith'', person ''2'' ''Ann Lee'']) \<and>
   find (\<lambda>p. part_id p = asc ''1'')
     (participants (initialEditor [labelA, labelB] [person ''1'' ''John Smith'', person ''2'' ''Ann Lee'']))
     = Some (person ''1'' ''John Smith'') \<and>
   distinct (map part_id
     (participants (initialEditor [labelA, labelB] [person ''1'' ''John Smith'', person ''2'' ''Ann Lee'']))) \<and>
   mapping (initialEditor [labelA, labelB] [person ''1'' ''John Smith'', person ''2'' ''Ann Lee''])
     = [(labelA, asc ''John Smith''), (labelB, asc ''Ann Lee'')] \<and>
   mapping (handleDelete True (asc ''1'')
     (initialEditor [labelA, labelB] [person ''1'' ''John Smith'', person ''2'' ''Ann Lee'']))
     = [(labelB, asc ''Ann Lee'')] \<and>
   dangling (handleDelete True (asc ''1'')
     (initialEditor [labelA, labelB] [person ''1'' ''John Smith'', person ''2'' ''Ann Lee''])) = {} \<and>
   dangling (rosterStep (Delete True (asc ''1''))
     (initialEditor [labelA, labelB] [person ''1'' ''John Smith'', person ''2'' ''Ann Lee''])) = {}"
proof -
  let ?e = "initialEditor [labelA, labelB] [person ''1'' ''John Smith'', person ''2'' ''Ann Lee'']"
  have r: "reachable [labelA, labelB] ?e" by (rule reachable.start)
  have f: "find (\<lambda>p. part_id p = asc ''1'') (participants ?e) = Some (person ''1'' ''John Smith'')"
    by (simp add: initialEditor_def person_def asc_def)
  have d: "distinct (map part_id (participants ?e))"
    by (simp add: initialEditor_def person_def asc_def)
  have m: "mapping ?e = [(labelA, asc ''John Smith''), (labelB, asc ''Ann Lee'')]"
    by (simp add: initialEditor_def initialMapping_def enumerate_eq_zip person_def upt_rec
          labelA_def labelB_def speakerWord_def asc_def)
  have m': "mapping (handleDelete True (asc ''1'') ?e) = [(labelB, asc ''Ann Lee'')]"
    by (simp add: handleDelete_def f m) (simp add: person_def asc_def)
  from mapping_never_dangles [OF r, of "Delete True (asc ''1'')" "asc ''1''"
      "person ''1'' ''John Smith''" True] r f d m m'
  show ?thesis by simp
qed

subsection \<open>Requesting the generation\<close>

lemma everyLabel_True:
  "everyLabel m labels = Some True \<longleftrightarrow>
     (\<forall>lbl \<in> set labels. \<exists>v. lookup m lbl = Some v \<and> trim v \<noteq> [])"
  by (induction labels) (auto split: option.splits)

lemma lookup_own:
  assumes "lookup m lbl = Some v" and "v \<noteq> []"
  shows "(lbl, v) \<in> set m"
  using assms by (auto simp: lookup_def dest: map_of_SomeD split: option.splits if_splits)

lemma trim_Nil: "trim [] = []"
  by (simp add: trim_def)

lemma empty_roster_not_mapped:
  assumes "reachable labels e" and "participants e = []"
  shows "allMapped labels e \<noteq> Some True"
proof
  assume mapped: "allMapped labels e = Some True"
  then have "labels \<noteq> []" by (auto simp: allMapped_def split: if_splits)
  then obtain lbl where lbl: "lbl \<in> set labels" by (cases labels) auto
  from mapped have "everyLabel (mapping e) labels = Some True"
    by (auto simp: allMapped_def split: if_splits)
  with lbl obtain v where v: "lookup (mapping e) lbl = Some v" "trim v \<noteq> []"
    by (auto simp: everyLabel_True)
  from v(2) have "v \<noteq> []" using trim_Nil by auto
  with v(1) have "(lbl, v) \<in> set (mapping e)" by (rule lookup_own)
  with \<open>v \<noteq> []\<close> assms(2) have "(lbl, v) \<in> dangling e" by (simp add: dangling_def)
  with reachable_dangling [OF assms(1)] show False by simp
qed

lemma sample_states:
  "initialEditor [labelA, labelB] [person ''1'' ''John Smith'']
     = \<lparr> participants = [person ''1'' ''John Smith''],
         mapping = [(labelA, asc ''John Smith''), (labelB, [])], error = [], submitting = False \<rparr>"
  "initialEditor [labelA] []
     = \<lparr> participants = [], mapping = [(labelA, [])], error = [], submitting = False \<rparr>"
  "initialEditor [labelA] [person ''1'' ''John Smith'']
     = \<lparr> participants = [person ''1'' ''John Smith''],
         mapping = [(labelA, asc ''John Smith'')], error = [], submitting = False \<rparr>"
  "initialEditor [asc ''__proto__''] [person ''1'' ''John Smith'']
     = \<lparr> participants = [person ''1'' ''John Smith''], mapping = [], error = [], submitting = False \<rparr>"
  by (simp_all add: initialEditor_def initialMapping_def enumerate_eq_zip person_def upt_rec
        labelA_def labelB_def speakerWord_def asc_def)

lemma sample_allMapped:
  "allMapped [labelA, labelB] (initialEditor [labelA, labelB] [person ''1'' ''John Smith'']) = Some False"
  "allMapped [labelA] (initialEditor [labelA] []) = Some False"
  "allMapped [labelA] (initialEditor [labelA] [person ''1'' ''John Smith'']) = Some True"
  "allMapped [asc ''__proto__''] (initialEditor [asc ''__proto__''] [person ''1'' ''John Smith'']) = None"
  unfolding sample_states
  by (simp_all add: allMapped_def lookup_def prototypeNames_def labelA_def labelB_def speakerWord_def
        asc_def trim_def isSpace_def)

lemma labels_not_in_message:
  "\<not> occursIn labelA assignEveryone" "\<not> occursIn labelB assignEveryone"
  by (simp_all add: labelA_def labelB_def speakerWord_def asc_def assignEveryone_def occursIn_def)




subsection \<open>Facts about the matcher\<close>

lemma rest_simp [simp]: "rest (b, s, c) = s"
  by (simp add: rest_def)

lemma rxm_Chr_Nil [simp]: "rxm (Chr p) (b, [], c) = []"
  by (simp add: rxm.simps)

lemma rxm_Chr_Cons [simp]: "rxm (Chr p) (b, x # xs, c) = (if p x then [(False, xs, c)] else [])"
  by (simp add: rxm.simps)

lemma rxm_Eps [simp]: "rxm Eps st = [st]"
  by (simp add: rxm.simps)

lemma rxm_Seq [simp]: "rxm (Seq r1 r2) st = concat (map (rxm r2) (rxm r1 st))"
  by (simp add: rxm.simps)

lemma rxm_Alt [simp]: "rxm (Alt r1 r2) st = rxm r1 st @ rxm r2 st"
  by (simp add: rxm.simps)

lemma rxm_Star [simp]: "rxm (Star g r) (b, s, c) = star g (rxm r) (length s) (b, s, c)"
  by (simp add: rxm.simps)

lemma rxm_Bol [simp]: "rxm Bol (b, s, c) = (if b then [(b, s, c)] else [])"
  by (simp add: rxm.simps)

lemma rxm_Eol [simp]: "rxm Eol (b, s, c) = (if s = [] then [(b, s, c)] else [])"
  by (simp add: rxm.simps)

lemma seqs_Nil: "seqs [] = Eps"
  by (simp add: seqs_def)

lemma seqs_Cons: "seqs (r # rs) = Seq r (seqs rs)"
  by (simp add: seqs_def)

text \<open>Greedy repetition of a class followed by the end of the input.\<close>

lemma star_class_Eol:
  "length s \<le> n \<Longrightarrow>
   concat (map (rxm Eol) (star True (rxm (Chr p)) n (b, s, c)))
     = (if list_all p s then [(if s = [] then b else False, [], c)] else [])"
proof (induction n arbitrary: b s)
  case 0
  then show ?case by simp
next
  case (Suc n)
  show ?case
  proof (cases s)
    case Nil
    then show ?thesis by simp
  next
    case (Cons x xs)
    with Suc.prems have len: "length xs \<le> n" by simp
    from Suc.IH [OF len, of False] Cons show ?thesis
      by (simp del: concat_eq_Nil_conv Nil_eq_concat_conv)
  qed
qed

lemma idTest_iff: "idTest s \<longleftrightarrow> s \<noteq> [] \<and> list_all upperAlnum s"
proof -
  let ?r = "seqs [Bol, plus (Chr upperAlnum), Eol]"
  have at: "rxm ?r (b, t, Map.empty)
      = (if b \<and> t \<noteq> [] \<and> list_all upperAlnum t then [(False, [], Map.empty)] else [])" for b t
  proof (cases t)
    case Nil
    then show ?thesis by (simp add: plus_def seqs_Cons seqs_Nil)
  next
    case (Cons x xs)
    have "map (rxm (Seq Eol Eps)) = map (\<lambda>st. rxm Eol st)"
      by (rule arg_cong [where f = map]) (auto simp: fun_eq_iff)
    with Cons star_class_Eol [of xs "length xs" upperAlnum False Map.empty]
    show ?thesis by (simp add: plus_def seqs_Cons seqs_Nil del: concat_eq_Nil_conv Nil_eq_concat_conv)
  qed
  have none: "search ?r pre False t = None" for pre t
    by (induction t arbitrary: pre) (simp_all add: matchAt_def at)
  show ?thesis
    by (cases s) (simp_all add: idTest_def test_def matchAt_def at none)
qed

subsection \<open>The extractor of speaker labels\<close>

lemma distinct_setAdd: "distinct labels \<Longrightarrow> distinct (setAdd l labels)"
  by (simp add: setAdd_def)

lemma set_setAdd: "set (setAdd l labels) = insert l (set labels)"
  by (auto simp: setAdd_def)

lemma distinct_foldl_setAdd:
  "distinct labels \<Longrightarrow> distinct (foldl (\<lambda>ls m. setAdd (f m) ls) labels ms)"
  by (induction ms arbitrary: labels) (simp_all add: distinct_setAdd)

lemma set_foldl_setAdd:
  "set (foldl (\<lambda>ls m. setAdd (f m) ls) labels ms) = set labels \<union> f ` set ms"
  by (induction ms arbitrary: labels) (auto simp: set_setAdd)

lemma fromSegments_None:
  "fromSegments labels segs = None \<longleftrightarrow> JNull \<in> set segs"
proof (induction segs arbitrary: labels)
  case Nil
  show ?case by simp
next
  case (Cons seg segs)
  show ?case
  proof (cases "seg = JNull")
    case True
    then show ?thesis by (simp add: segmentSpeaker_def)
  next
    case False
    with Cons show ?thesis
      by (auto simp: segmentSpeaker_def split: option.splits json.splits)
  qed
qed

lemma fromSegments_distinct:
  "fromSegments labels segs = Some r \<Longrightarrow> distinct labels \<Longrightarrow> distinct r"
proof (induction segs arbitrary: labels)
  case Nil
  then show ?case by simp
next
  case (Cons seg segs)
  then show ?case
    by (auto simp: distinct_setAdd split: option.splits json.splits)
qed

lemma fromTranscript_distinct: "distinct (fromTranscript t)"
proof -
  have "distinct (foldl (\<lambda>labels m. case transcriptLabel m of None \<Rightarrow> labels | Some l \<Rightarrow> setAdd l labels) ls ms)"
    if "distinct ls" for ls ms
    using that by (induction ms arbitrary: ls) (auto simp: distinct_setAdd split: option.splits)
  then show ?thesis by (simp add: fromTranscript_def)
qed

lemma fromSimplePatterns_distinct: "distinct (fromSimplePatterns canon t)"
proof -
  have "distinct (foldl (\<lambda>labels pattern.
              foldl (\<lambda>labels m. setAdd (trim (m_text m)) labels) labels
                (matchAll pattern [] True t)) ls ps)"
    if "distinct ls" for ls ps
    using that by (induction ps arbitrary: ls) (simp_all add: distinct_foldl_setAdd)
  then show ?thesis by (simp add: fromSimplePatterns_def)
qed

lemma fromSimplePatterns_set:
  "set (fromSimplePatterns canon t)
     = (\<Union>pattern \<in> set (simplePatterns canon). (\<lambda>m. trim (m_text m)) ` set (matchAll pattern [] True t))"
proof -
  have "set (foldl (\<lambda>labels pattern.
              foldl (\<lambda>labels m. setAdd (trim (m_text m)) labels) labels
                (matchAll pattern [] True t)) ls ps)
      = set ls \<union> (\<Union>pattern \<in> set ps. (\<lambda>m. trim (m_text m)) ` set (matchAll pattern [] True t))"
    for ls ps
    by (induction ps arbitrary: ls) (auto simp: set_foldl_setAdd)
  then show ?thesis by (simp add: fromSimplePatterns_def)
qed

lemma defaultLabels_sorted: "sort defaultLabels = defaultLabels"
  by code_simp

lemma speakerLabels_tiers:
  "speakerLabels canon d t =
     (case fromDiarization d of
        None \<Rightarrow> None
      | Some labels1 \<Rightarrow>
          Some (sort (if labels1 \<noteq> [] then labels1
                      else if fromTranscript t \<noteq> [] then fromTranscript t
                      else if fromSimplePatterns canon t \<noteq> [] then fromSimplePatterns canon t
                      else defaultLabels)))"
  by (simp add: speakerLabels_def fromDiarization_def Let_def split: option.splits)

lemma fromDiarization_distinct: "fromDiarization d = Some ls \<Longrightarrow> distinct ls"
  by (auto simp: fromDiarization_def dest: fromSegments_distinct split: option.splits json.splits)

lemma fromDiarization_None: "fromDiarization d = None \<longleftrightarrow> (\<exists>segs. segmentsOf d = Some (JArr segs) \<and> JNull \<in> set segs)"
  by (auto simp: fromDiarization_def fromSegments_None split: option.splits json.splits)

lemma speakerLabels_properties:
  "(speakerLabels canon d t = None \<longleftrightarrow>
      (\<exists>segs. segmentsOf d = Some (JArr segs) \<and> JNull \<in> set segs)) \<and>
   (speakerLabels canon d t = Some ls \<longrightarrow> ls \<noteq> [] \<and> sorted ls \<and> distinct ls) \<and>
   (fromDiarization d = Some [] \<and> fromTranscript t = [] \<and> fromSimplePatterns canon t = [] \<longrightarrow>
      speakerLabels canon d t = Some defaultLabels)"
proof -
  have none: "speakerLabels canon d t = None \<longleftrightarrow>
      (\<exists>segs. segmentsOf d = Some (JArr segs) \<and> JNull \<in> set segs)"
    using fromDiarization_None [of d] by (cases "fromDiarization d") (simp_all add: speakerLabels_tiers)
  have some: "ls \<noteq> [] \<and> sorted ls \<and> distinct ls" if a: "speakerLabels canon d t = Some ls"
  proof -
    from a obtain labels1 where l1: "fromDiarization d = Some labels1"
      by (auto simp: speakerLabels_tiers split: option.splits)
    define chosen where "chosen = (if labels1 \<noteq> [] then labels1
                      else if fromTranscript t \<noteq> [] then fromTranscript t
                      else if fromSimplePatterns canon t \<noteq> [] then fromSimplePatterns canon t
                      else defaultLabels)"
    from a l1 have ls: "ls = sort chosen" by (simp add: speakerLabels_tiers chosen_def)
    have ne: "chosen \<noteq> []" by (simp add: chosen_def defaultLabels_def)
    have "distinct defaultLabels" by code_simp
    then have di: "distinct chosen"
      using fromDiarization_distinct [OF l1] fromTranscript_distinct [of t]
        fromSimplePatterns_distinct [of canon t]
      by (simp add: chosen_def)
    have "length ls = length chosen" by (simp add: ls)
    with ne have "ls \<noteq> []" by auto
    moreover have "sorted ls" by (simp add: ls)
    moreover have "distinct ls" using di by (simp add: ls)
    ultimately show ?thesis by simp
  qed
  have dflt: "speakerLabels canon d t = Some defaultLabels"
    if "fromDiarization d = Some [] \<and> fromTranscript t = [] \<and> fromSimplePatterns canon t = []"
    using that by (simp add: speakerLabels_tiers defaultLabels_sorted)
  from none some dflt show ?thesis by blast
qed

text \<open>
  Claim C2 at a payload whose list of segments holds \<open>null\<close>: reading the speaker of
  that segment raises a TypeError, so the extractor returns no list at all.
\<close>

theorem speakerLabels_null_segment:
  "speakerLabels canonicalize (Some (JObj [(asc ''utterances'', JArr [JNull])])) [] = None"
  by code_simp

subsection \<open>Normalising the labels\<close>

text \<open>
  Claim C3 as stated fails: the expression is matched with regard to case. The
  identifiers \<open>A\<close> and \<open>a\<close> of two segments give two labels, and so do two
  designations of the transcript that differ in case only.
\<close>

theorem label_case_counterexample:
  "speakerLabels canonicalize
     (Some (JObj [(asc ''utterances'',
        JArr [JObj [(asc ''speaker'', JStr (asc ''A''))], JObj [(asc ''speaker'', JStr (asc ''a''))]])])) []
     = Some [asc ''a'', withSpeakerWord (asc ''A'')] \<and>
   speakerLabels canonicalize None (asc ''Speaker A and speaker a'')
     = Some [asc ''Speaker A'', asc ''speaker a'']"
  by code_simp

text \<open>
  Claim C3, amended: the identifier test accepts exactly the texts that are not empty
  and consist of the upper-case letters A to Z and digits, so it depends on case. The
  first and the second tier normalise alike: the trimmed identifier gets the speaker
  word in front when it passes the test and is the label as it is otherwise. The third
  tier does not normalise: its labels are the matched texts, trimmed.
\<close>

theorem label_normalisation:
  "(idTest s \<longleftrightarrow> s \<noteq> [] \<and> list_all upperAlnum s) \<and>
   segmentLabel v = (if idTest (trim (String_json v)) then withSpeakerWord (trim (String_json v))
                     else trim (String_json v)) \<and>
   (firstTruthy (group m 3) (group m 4) = Some lbl \<and> lbl \<noteq> [] \<longrightarrow>
      transcriptLabel m = Some (if idTest (trim lbl) then withSpeakerWord (trim lbl) else trim lbl)) \<and>
   set (fromSimplePatterns canon t)
     = (\<Union>pattern \<in> set (simplePatterns canon). (\<lambda>m. trim (m_text m)) ` set (matchAll pattern [] True t))"
  using idTest_iff [of s] fromSimplePatterns_set [of canon t]
  by (simp add: segmentLabel_def transcriptLabel_def Let_def)

theorem label_normalisation_witness:
  "idTest (asc ''A'') \<and> \<not> idTest (asc ''a'') \<and>
   segmentLabel (JStr (asc '' B '')) = withSpeakerWord (asc ''B'') \<and>
   firstTruthy (group \<lparr> m_index = 0, m_text = [], m_groups = [4 \<mapsto> asc ''Ann Lee ''] \<rparr> 3)
     (group \<lparr> m_index = 0, m_text = [], m_groups = [4 \<mapsto> asc ''Ann Lee ''] \<rparr> 4)
     = Some (asc ''Ann Lee '') \<and>
   transcriptLabel \<lparr> m_index = 0, m_text = [], m_groups = [4 \<mapsto> asc ''Ann Lee ''] \<rparr>
     = Some (asc ''Ann Lee'') \<and>
   set (fromSimplePatterns canonicalize (asc ''speaker a'')) = {asc ''speaker a''}"
proof -
  let ?m = "\<lparr> m_index = 0, m_text = [], m_groups = [4 \<mapsto> asc ''Ann Lee ''] \<rparr>"
  have a: "asc ''A'' \<noteq> [] \<and> list_all upperAlnum (asc ''A'')" by code_simp
  have b: "\<not> list_all upperAlnum (asc ''a'')" by code_simp
  have c: "trim (String_json (JStr (asc '' B ''))) = asc ''B''" by code_simp
  have d: "asc ''B'' \<noteq> [] \<and> list_all upperAlnum (asc ''B'')" by code_simp
  have e: "firstTruthy (group ?m 3) (group ?m 4) = Some (asc ''Ann Lee '')"
    by (simp add: firstTruthy_def group_def asc_def)
  have f: "trim (asc ''Ann Lee '') = asc ''Ann Lee''" by code_simp
  have g: "\<not> list_all upperAlnum (asc ''Ann Lee'')" by code_simp
  have h: "asc ''Ann Lee '' \<noteq> []" by (simp add: asc_def)
  have i: "fromSimplePatterns canonicalize (asc ''speaker a'') = [asc ''speaker a'']" by code_simp
  from label_normalisation [of "asc ''A''" "JStr (asc '' B '')" ?m "asc ''Ann Lee ''" canonicalize "asc ''speaker a''"]
    label_normalisation [of "asc ''a''" "JStr (asc '' B '')" ?m "asc ''Ann Lee ''" canonicalize "asc ''speaker a''"]
    label_normalisation [of "asc ''B''" "JStr (asc '' B '')" ?m "asc ''Ann Lee ''" canonicalize "asc ''speaker a''"]
    label_normalisation [of "asc ''Ann Lee''" "JStr (asc '' B '')" ?m "asc ''Ann Lee ''" canonicalize "asc ''speaker a''"]
    a b c d e f g h i
  show ?thesis by simp
qed

subsection \<open>Blank lines and rules in the block parser\<close>

lemma search_not_start:
  assumes "\<And>t. rxm r (False, t, Map.empty) = []"
  shows "search r pre False t = None"
  by (induction t arbitrary: pre) (simp_all add: matchAt_def assms)

lemma test_anchored:
  assumes "\<And>t. rxm r (False, t, Map.empty) = []"
  shows "test r s \<longleftrightarrow> rxm r (True, s, Map.empty) \<noteq> []"
proof (cases s)
  case Nil
  then show ?thesis by (simp add: test_def matchAt_def split: list.splits)
next
  case (Cons x xs)
  then show ?thesis
    by (simp add: test_def matchAt_def search_not_start [OF assms] split: list.splits)
qed

lemma ruleRegex_at:
  "rxm ruleRegex (b, t, Map.empty)
     = (if b \<and> 3 \<le> length t \<and> list_all (exactly 45) t then [(False, [], Map.empty)] else [])"
proof -
  have eol: "map (rxm (Seq Eol Eps)) = map (\<lambda>st. rxm Eol st)"
    by (rule arg_cong [where f = map]) (auto simp: fun_eq_iff)
  show ?thesis
  proof (cases t)
    case Nil
    then show ?thesis by (simp add: ruleRegex_def seqs_Cons seqs_Nil)
  next
    case c1: (Cons x1 t1)
    show ?thesis
    proof (cases t1)
      case Nil
      with c1 show ?thesis by (simp add: ruleRegex_def seqs_Cons seqs_Nil)
    next
      case c2: (Cons x2 t2)
      show ?thesis
      proof (cases t2)
        case Nil
        with c1 c2 show ?thesis by (simp add: ruleRegex_def seqs_Cons seqs_Nil)
      next
        case c3: (Cons x3 t3)
        from star_class_Eol [of t3 "length t3" "exactly 45" False Map.empty] eol c1 c2 c3
        show ?thesis
          by (simp add: ruleRegex_def seqs_Cons seqs_Nil del: concat_eq_Nil_conv Nil_eq_concat_conv)
      qed
    qed
  qed
qed

lemma ruleRegex_test: "test ruleRegex t \<longleftrightarrow> 3 \<le> length t \<and> list_all (exactly 45) t"
proof -
  have "rxm ruleRegex (False, u, Map.empty) = []" for u
    by (simp add: ruleRegex_at)
  from test_anchored [of ruleRegex, OF this] show ?thesis
    by (simp add: ruleRegex_at)
qed

lemma parseLine_blank:
  assumes "trim line = []"
  shows "parseLine canon st line
     = (if fst (flushList st) \<noteq> [] then push Spacer (flushList st) else flushList st)"
  using assms by (simp add: parseLine_def Let_def)

lemma parseLine_rule:
  assumes "3 \<le> length (trim line)" and "list_all (exactly 45) (trim line)"
  shows "parseLine canon st line = flushList st"
proof -
  from assms(1) have "trim line \<noteq> []" by auto
  with assms show ?thesis by (simp add: parseLine_def Let_def ruleRegex_test)
qed

lemma flushList_cases:
  "flushList st = (if snd st \<noteq> [] then (fst st @ [BulletList (snd st)], []) else (fst st, []))"
  by (cases st) (simp add: flushList_def)

lemma blank_run:
  assumes "list_all (\<lambda>l. trim l = []) bs" and "bs \<noteq> []" and "fst (flushList st) \<noteq> []"
  shows "foldl (parseLine canon) st bs = (fst (flushList st) @ replicate (length bs) Spacer, [])"
  using assms
proof (induction bs arbitrary: st)
  case Nil
  then show ?case by simp
next
  case (Cons l bs)
  let ?st = "push Spacer (flushList st)"
  have step: "parseLine canon st l = ?st"
    using Cons.prems by (simp add: parseLine_blank)
  have fl: "flushList ?st = ?st"
    by (simp add: flushList_cases push_def)
  show ?case
  proof (cases bs)
    case Nil
    with step show ?thesis by (simp add: push_def flushList_cases)
  next
    case (Cons l' bs')
    have "fst (flushList ?st) \<noteq> []" by (simp add: push_def flushList_cases)
    with Cons.IH [of ?st] Cons Cons.prems(1)
    have "foldl (parseLine canon) ?st bs = (fst (flushList ?st) @ replicate (length bs) Spacer, [])"
      by simp
    with step fl show ?thesis
      by (simp add: push_def flushList_cases replicate_append_same)
  qed
qed

text \<open>
  Claim C8 as stated fails: a run of two blank lines after a paragraph produces two
  Spacer blocks.
\<close>

theorem blank_lines_counterexample:
  "formatProtocolContent canonicalize (asc ''a'' @ [10, 10, 10] @ asc ''b'')
     = Some [Paragraph (asc ''a''), Spacer, Spacer, Paragraph (asc ''b'')]"
  by code_simp

text \<open>
  Claim C8, amended: every blank line flushes the open list and then produces one
  Spacer block if any block has been produced so far and none otherwise, so that a run
  of blank lines after a block produces as many Spacer blocks as it has lines; a line
  of three or more dashes flushes the open list and produces no block of its own.
\<close>

theorem blank_and_rule_lines:
  "(trim line = [] \<longrightarrow>
      parseLine canon st line
        = (if fst (flushList st) \<noteq> [] then push Spacer (flushList st) else flushList st)) \<and>
   (3 \<le> length (trim line) \<and> list_all (exactly 45) (trim line) \<longrightarrow>
      parseLine canon st line = flushList st) \<and>
   flushList st = (if snd st \<noteq> [] then (fst st @ [BulletList (snd st)], []) else (fst st, [])) \<and>
   (list_all (\<lambda>l. trim l = []) bs \<and> bs \<noteq> [] \<and> fst (flushList st) \<noteq> [] \<longrightarrow>
      foldl (parseLine canon) st bs = (fst (flushList st) @ replicate (length bs) Spacer, []))"
  using parseLine_blank [of line canon st] parseLine_rule [of line canon st]
    flushList_cases [of st] blank_run [of bs st canon]
  by simp

theorem blank_and_rule_lines_witness:
  "trim [32] = [] \<and>
   parseLine canonicalize ([Paragraph (asc ''a'')], [asc ''item'']) [32]
     = ([Paragraph (asc ''a''), BulletList [asc ''item''], Spacer], []) \<and>
   3 \<le> length (trim (asc ''----'')) \<and> list_all (exactly 45) (trim (asc ''----'')) \<and>
   parseLine canonicalize ([Paragraph (asc ''a'')], [asc ''item'']) (asc ''----'')
     = ([Paragraph (asc ''a''), BulletList [asc ''item'']], []) \<and>
   list_all (\<lambda>l. trim l = []) [[32], []] \<and>
   foldl (parseLine canonicalize) ([Paragraph (asc ''a'')], [asc ''item'']) [[32], []]
     = ([Paragraph (asc ''a''), BulletList [asc ''item''], Spacer, Spacer], [])"
proof -
  let ?st = "([Paragraph (asc ''a'')], [asc ''item''])"
  have t1: "trim [32] = []" by code_simp
  have t2: "trim (asc ''----'') = asc ''----''" by code_simp
  have t3: "list_all (\<lambda>l. trim l = []) [[32], []]" by code_simp
  have t4: "list_all (exactly 45) (asc ''----'')" by code_simp
  have t5: "length (asc ''----'') = 4" by code_simp
  have f: "flushList ?st = ([Paragraph (asc ''a''), BulletList [asc ''item'']], [])"
    by (simp add: flushList_def)
  from blank_and_rule_lines [of "[32]" canonicalize ?st "[[32], []]"]
    blank_and_rule_lines [of "asc ''----''" canonicalize ?st "[[32], []]"]
    t1 t2 t3 t4 t5 f
  show ?thesis by (simp add: push_def)
qed

subsection \<open>Matches never grow the input\<close>

lemma star_rest_le:
  assumes f: "\<And>st st'. st' \<in> set (f st) \<Longrightarrow> length (rest st') \<le> length (rest st)"
  shows "st' \<in> set (star g f n st) \<Longrightarrow> length (rest st') \<le> length (rest st)"
proof (induction n arbitrary: st)
  case 0
  then show ?case by simp
next
  case (Suc n)
  from Suc.prems have "st' = st \<or>
      (\<exists>st1. st1 \<in> set (f st) \<and> length (rest st1) < length (rest st) \<and> st' \<in> set (star g f n st1))"
    by (auto simp: Let_def split: if_splits)
  then show ?case
  proof
    assume "st' = st"
    then show ?thesis by simp
  next
    assume "\<exists>st1. st1 \<in> set (f st) \<and> length (rest st1) < length (rest st) \<and> st' \<in> set (star g f n st1)"
    then obtain st1 where "length (rest st1) < length (rest st)" "st' \<in> set (star g f n st1)"
      by auto
    with Suc.IH [of st1] show ?thesis by simp
  qed
qed

lemma rxm_rest_le: "st' \<in> set (rxm r st) \<Longrightarrow> length (rest st') \<le> length (rest st)"
proof (induction r arbitrary: st st')
  case (Chr p)
  then show ?case by (cases st) (auto simp: rxm.simps split: list.splits if_splits)
next
  case Eps
  then show ?case by simp
next
  case (Seq r1 r2)
  then obtain st1 where "st1 \<in> set (rxm r1 st)" "st' \<in> set (rxm r2 st1)" by auto
  with Seq.IH show ?case by (meson le_trans)
next
  case (Alt r1 r2)
  from Alt.prems have "st' \<in> set (rxm r1 st) \<or> st' \<in> set (rxm r2 st)" by simp
  with Alt.IH show ?case by blast
next
  case (Star g r)
  then show ?case using star_rest_le [of "rxm r" st' g "length (rest st)" st]
    by (simp add: rxm.simps)
next
  case (Grp n r)
  from Grp.prems obtain st1 where "st1 \<in> set (rxm r st)" "rest st' = rest st1"
    by (auto simp: rxm.simps)
  with Grp.IH [of st1 st] show ?case by simp
next
  case Bol
  then show ?case by (auto simp: rxm.simps split: if_splits)
next
  case Eol
  then show ?case by (auto simp: rxm.simps split: if_splits)
qed

lemma rxm_Chr_first_shorter:
  assumes "st' \<in> set (rxm (Seq (Chr p) r) (b, s, c))"
  shows "length (rest st') < length s"
proof (cases s)
  case Nil
  with assms show ?thesis by simp
next
  case (Cons x xs)
  with assms have "st' \<in> set (rxm r (False, xs, c))" by (auto split: if_splits)
  from rxm_rest_le [OF this] Cons show ?thesis by simp
qed

lemma matchAt_Chr_first:
  assumes "matchAt (Seq (Chr p) r) b s = Some (m, c, aft)"
  shows "m \<noteq> []"
proof -
  from assms obtain st sts where st: "rxm (Seq (Chr p) r) (b, s, Map.empty) = st # sts"
    and m: "m = take (length s - length (rest st)) s"
    by (auto simp: matchAt_def split: list.splits)
  from st have "st \<in> set (rxm (Seq (Chr p) r) (b, s, Map.empty))" by simp
  from rxm_Chr_first_shorter [OF this] m show ?thesis by auto
qed

lemma search_Some:
  "search r pre b s = Some (bef, m, c, aft) \<Longrightarrow> \<exists>b' s'. matchAt r b' s' = Some (m, c, aft)"
proof (induction s arbitrary: pre b)
  case Nil
  then show ?case by (auto split: option.splits)
next
  case (Cons x xs)
  then show ?case by (auto split: option.splits)
qed

lemma matchAll_all:
  assumes "\<And>b s m c aft. matchAt r b s = Some (m, c, aft) \<Longrightarrow> P m"
  shows "\<forall>x \<in> set (matchAll r pre b s). P (m_text x)"
  using assms
proof (induction r pre b s rule: matchAll.induct)
  case (1 r pre atStart s)
  note P = "1.prems"
  show ?case
  proof (cases "search r pre atStart s")
    case None
    then show ?thesis by (simp add: matchAll.simps [of r pre atStart s])
  next
    case (Some found)
    obtain bef m c aft where found: "found = (bef, m, c, aft)" by (cases found) auto
    from search_Some [of r pre atStart s bef m c aft] Some found
    obtain b' s' where "matchAt r b' s' = Some (m, c, aft)" by auto
    then have pm: "P m" by (rule P)
    show ?thesis
    proof (cases "m = []")
      case True
      show ?thesis
      proof (cases "drop (length bef - length pre) s")
        case Nil
        with Some found True pm show ?thesis by (simp add: matchAll.simps [of r pre atStart s])
      next
        case (Cons x xs)
        have "\<forall>x\<in>set (matchAll r (bef @ [x]) False xs). P (m_text x)"
          by (rule "1.IH"(1) [OF Some found [symmetric] refl refl True Cons P])
        with Some found True pm Cons show ?thesis by (simp add: matchAll.simps [of r pre atStart s])
      qed
    next
      case False
      have "\<forall>x\<in>set (matchAll r (bef @ m) False (drop (length bef - length pre + length m) s)). P (m_text x)"
        by (rule "1.IH"(2) [OF Some found [symmetric] refl refl False P])
      with Some found False pm show ?thesis by (simp add: matchAll.simps [of r pre atStart s])
    qed
  qed
qed

subsection \<open>Resolving overlapping emphasis\<close>

lemma boldRegex_nonempty:
  "\<forall>x \<in> set (matchAll boldRegex pre b s). m_text x \<noteq> []"
  by (rule matchAll_all) (auto simp: boldRegex_def seqs_Cons dest: matchAt_Chr_first)

lemma italicRegex_nonempty:
  "\<forall>x \<in> set (matchAll italicRegex pre b s). m_text x \<noteq> []"
  by (rule matchAll_all) (auto simp: italicRegex_def seqs_Cons dest: matchAt_Chr_first)

lemma sortedMatches_set:
  "set (sortedMatches text) = set (boldMatches text) \<union> set (italicMatches text)"
  by (simp add: sortedMatches_def)

lemma sortedMatches_nonempty_spans:
  "\<forall>m \<in> set (sortedMatches text). md_start m < md_end m"
  using boldRegex_nonempty [of "[]" True "text"] italicRegex_nonempty [of "[]" True "text"]
  by (auto simp: sortedMatches_set boldMatches_def italicMatches_def toMatch_def)

text \<open>The scan over the sorted matches, from any list of matches accepted so far.\<close>

lemma keep_scan:
  assumes "sorted (map md_start xs)"
    and "\<forall>x \<in> set xs. md_start x < md_end x"
    and "\<forall>a \<in> set acc. md_start a < md_end a"
    and "\<forall>a \<in> set acc. \<forall>x \<in> set xs. md_start a \<le> md_start x"
    and "sorted_wrt (\<lambda>a b. md_end a \<le> md_start b) acc"
  shows "\<exists>more. foldl keepUnlessOverlap acc xs = acc @ more \<and> set more \<subseteq> set xs \<and>
     sorted_wrt (\<lambda>a b. md_end a \<le> md_start b) (acc @ more) \<and>
     (\<forall>x \<in> set xs. x \<in> set more \<or>
        (\<exists>f \<in> set (acc @ more). md_start f \<le> md_start x \<and> md_start x < md_end f)) \<and>
     (acc = [] \<and> xs \<noteq> [] \<longrightarrow> more \<noteq> [] \<and> hd more = hd xs)"
  using assms
proof (induction xs arbitrary: acc)
  case Nil
  then show ?case by simp
next
  case (Cons c xs)
  let ?acc = "keepUnlessOverlap acc c"
  have tail_sorted: "sorted (map md_start xs)" and c_le: "\<forall>x \<in> set xs. md_start c \<le> md_start x"
    using Cons.prems(1) by simp_all
  have c_span: "md_start c < md_end c" using Cons.prems(2) by simp
  show ?case
  proof (cases "list_ex (overlapsWith c) acc")
    case True
    then obtain f where f: "f \<in> set acc" "overlapsWith c f" by (auto simp: list_ex_iff)
    from Cons.prems(3,4) f have "md_start f < md_end f" "md_start f \<le> md_start c" by auto
    with f(2) c_span have hit: "md_start f \<le> md_start c \<and> md_start c < md_end f"
      by (auto simp: overlapsWith_def)
    have acc: "?acc = acc" using True by (simp add: keepUnlessOverlap_def)
    from Cons.IH [of acc] tail_sorted Cons.prems
    obtain more where more: "foldl keepUnlessOverlap acc xs = acc @ more" "set more \<subseteq> set xs"
      "sorted_wrt (\<lambda>a b. md_end a \<le> md_start b) (acc @ more)"
      "\<forall>x \<in> set xs. x \<in> set more \<or>
        (\<exists>f \<in> set (acc @ more). md_start f \<le> md_start x \<and> md_start x < md_end f)"
      by auto
    from True have "acc \<noteq> []" by auto
    with more f hit acc show ?thesis
      by (intro exI [of _ more]) auto
  next
    case False
    then have no: "\<forall>f \<in> set acc. \<not> overlapsWith c f" by (auto simp: list_ex_iff)
    have acc: "?acc = acc @ [c]" using False by (simp add: keepUnlessOverlap_def)
    have ends: "\<forall>f \<in> set acc. md_end f \<le> md_start c"
    proof
      fix f assume "f \<in> set acc"
      with no Cons.prems(4) have "\<not> overlapsWith c f" "md_start f \<le> md_start c" by auto
      then show "md_end f \<le> md_start c" by (auto simp: overlapsWith_def)
    qed
    have p3: "\<forall>a \<in> set (acc @ [c]). md_start a < md_end a" using Cons.prems(3) c_span by auto
    have p4: "\<forall>a \<in> set (acc @ [c]). \<forall>x \<in> set xs. md_start a \<le> md_start x"
      using Cons.prems(4) c_le by auto
    have p5: "sorted_wrt (\<lambda>a b. md_end a \<le> md_start b) (acc @ [c])"
      using Cons.prems(5) ends by (simp add: sorted_wrt_append)
    from Cons.IH [of "acc @ [c]", OF tail_sorted _ p3 p4 p5] Cons.prems(2)
    obtain more where more: "foldl keepUnlessOverlap (acc @ [c]) xs = (acc @ [c]) @ more"
      "set more \<subseteq> set xs"
      "sorted_wrt (\<lambda>a b. md_end a \<le> md_start b) ((acc @ [c]) @ more)"
      "\<forall>x \<in> set xs. x \<in> set more \<or>
        (\<exists>f \<in> set ((acc @ [c]) @ more). md_start f \<le> md_start x \<and> md_start x < md_end f)"
      by auto
    with acc show ?thesis
      by (intro exI [of _ "c # more"]) auto
  qed
qed

lemma filteredMatches_scan:
  "set (filteredMatches text) \<subseteq> set (sortedMatches text) \<and>
   sorted_wrt (\<lambda>a b. md_end a \<le> md_start b) (filteredMatches text) \<and>
   (\<forall>m \<in> set (sortedMatches text). m \<in> set (filteredMatches text) \<or>
      (\<exists>f \<in> set (filteredMatches text). md_start f \<le> md_start m \<and> md_start m < md_end f)) \<and>
   (sortedMatches text \<noteq> [] \<longrightarrow>
      filteredMatches text \<noteq> [] \<and> hd (filteredMatches text) = hd (sortedMatches text))"
proof -
  have "sorted (map md_start (sortedMatches text))"
    by (simp add: sortedMatches_def)
  from keep_scan [OF this sortedMatches_nonempty_spans, of "[]"]
  show ?thesis by (auto simp: filteredMatches_def)
qed

lemma accepted_apart:
  assumes "sorted_wrt (\<lambda>a b. md_end a \<le> md_start b) fs"
    and "\<forall>m \<in> set fs. md_start m < md_end m"
    and "m \<in> set fs" and "f \<in> set fs" and "m \<noteq> f"
  shows "\<not> spansMeet m f"
proof -
  from assms(3,4,5) obtain i j where ij: "i < length fs" "j < length fs" "fs ! i = m" "fs ! j = f" "i \<noteq> j"
    by (metis in_set_conv_nth)
  then consider "i < j" | "j < i" by linarith
  then show ?thesis
  proof cases
    case 1
    with assms(1) ij have "md_end m \<le> md_start f" by (auto simp: sorted_wrt_iff_nth_less)
    then show ?thesis by (auto simp: spansMeet_def)
  next
    case 2
    with assms(1) ij have "md_end f \<le> md_start m" by (auto simp: sorted_wrt_iff_nth_less)
    then show ?thesis by (auto simp: spansMeet_def)
  qed
qed

text \<open>
  Claim C9: the matches of the two expressions are merged and sorted by their start;
  every match that is not accepted meets an accepted match that starts no later, the
  accepted matches do not meet each other, and the first match of the sorted list is
  always accepted, whatever its kind.
\<close>

theorem inline_matches_resolved:
  "set (sortedMatches text) = set (boldMatches text) \<union> set (italicMatches text) \<and>
   length (sortedMatches text) = length (boldMatches text) + length (italicMatches text) \<and>
   sorted (map md_start (sortedMatches text)) \<and>
   set (filteredMatches text) \<subseteq> set (sortedMatches text) \<and>
   (\<forall>m \<in> set (sortedMatches text). m \<in> set (filteredMatches text) \<or>
      (\<exists>f \<in> set (filteredMatches text). md_start f \<le> md_start m \<and> spansMeet m f)) \<and>
   (\<forall>m \<in> set (filteredMatches text). \<forall>f \<in> set (filteredMatches text).
      m \<noteq> f \<longrightarrow> \<not> spansMeet m f) \<and>
   (sortedMatches text \<noteq> [] \<longrightarrow>
      filteredMatches text \<noteq> [] \<and> hd (filteredMatches text) = hd (sortedMatches text))"
proof -
  note scan = filteredMatches_scan [of "text"]
  note spans = sortedMatches_nonempty_spans [of "text"]
  have fspans: "\<forall>m \<in> set (filteredMatches text). md_start m < md_end m"
    using scan spans by blast
  have meet: "\<forall>m \<in> set (sortedMatches text). m \<in> set (filteredMatches text) \<or>
      (\<exists>f \<in> set (filteredMatches text). md_start f \<le> md_start m \<and> spansMeet m f)"
  proof
    fix m assume m: "m \<in> set (sortedMatches text)"
    show "m \<in> set (filteredMatches text) \<or>
      (\<exists>f \<in> set (filteredMatches text). md_start f \<le> md_start m \<and> spansMeet m f)"
    proof (cases "m \<in> set (filteredMatches text)")
      case True
      then show ?thesis by simp
    next
      case False
      with scan m obtain f where f: "f \<in> set (filteredMatches text)"
        "md_start f \<le> md_start m" "md_start m < md_end f" by blast
      from spans m have "md_start m < md_end m" by simp
      with f have "spansMeet m f" by (auto simp: spansMeet_def)
      with f show ?thesis by blast
    qed
  qed
  have apart: "\<forall>m \<in> set (filteredMatches text). \<forall>f \<in> set (filteredMatches text).
      m \<noteq> f \<longrightarrow> \<not> spansMeet m f"
    using accepted_apart [of "filteredMatches text"] scan fspans by blast
  show ?thesis
    using scan meet apart by (simp add: sortedMatches_set) (simp add: sortedMatches_def)
qed

theorem inline_matches_resolved_witness:
  "sortedMatches (asc ''a **b _c** d_ e **f**'')
     = [\<lparr> md_start = 2, md_end = 10, md_type = Bold, md_text = asc ''b _c'' \<rparr>,
        \<lparr> md_start = 6, md_end = 13, md_type = Italic, md_text = asc ''c** d'' \<rparr>,
        \<lparr> md_start = 16, md_end = 21, md_type = Bold, md_text = asc ''f'' \<rparr>] \<and>
   filteredMatches (asc ''a **b _c** d_ e **f**'')
     = [\<lparr> md_start = 2, md_end = 10, md_type = Bold, md_text = asc ''b _c'' \<rparr>,
        \<lparr> md_start = 16, md_end = 21, md_type = Bold, md_text = asc ''f'' \<rparr>] \<and>
   \<lparr> md_start = 6, md_end = 13, md_type = Italic, md_text = asc ''c** d'' \<rparr>
     \<in> set (sortedMatches (asc ''a **b _c** d_ e **f**'')) \<and>
   (\<exists>f \<in> set (filteredMatches (asc ''a **b _c** d_ e **f**'')).
      md_start f \<le> 6 \<and>
      spansMeet \<lparr> md_start = 6, md_end = 13, md_type = Italic, md_text = asc ''c** d'' \<rparr> f) \<and>
   sortedMatches (asc ''a **b _c** d_ e **f**'') \<noteq> [] \<and>
   hd (filteredMatches (asc ''a **b _c** d_ e **f**'')) = hd (sortedMatches (asc ''a **b _c** d_ e **f**''))"
proof -
  let ?t = "asc ''a **b _c** d_ e **f**''"
  let ?i = "\<lparr> md_start = 6, md_end = 13, md_type = Italic, md_text = asc ''c** d'' \<rparr>"
  have s: "sortedMatches ?t
     = [\<lparr> md_start = 2, md_end = 10, md_type = Bold, md_text = asc ''b _c'' \<rparr>, ?i,
        \<lparr> md_start = 16, md_end = 21, md_type = Bold, md_text = asc ''f'' \<rparr>]"
    by code_simp
  have f: "filteredMatches ?t
     = [\<lparr> md_start = 2, md_end = 10, md_type = Bold, md_text = asc ''b _c'' \<rparr>,
        \<lparr> md_start = 16, md_end = 21, md_type = Bold, md_text = asc ''f'' \<rparr>]"
    by code_simp
  have i: "?i \<in> set (sortedMatches ?t)" by (simp add: s)
  have n: "?i \<notin> set (filteredMatches ?t)" by (simp add: f)
  have ne: "sortedMatches ?t \<noteq> []" by (simp add: s)
  from inline_matches_resolved [of ?t] i n
  have "\<exists>f \<in> set (filteredMatches ?t). md_start f \<le> md_start ?i \<and> spansMeet ?i f"
    by blast
  moreover from inline_matches_resolved [of ?t] ne
  have "hd (filteredMatches ?t) = hd (sortedMatches ?t)" by blast
  ultimately show ?thesis using s f i ne by simp
qed

subsection \<open>Escaping a label and reading it back\<close>

lemma getSubstitution_escape [simp]: "getSubstitution m bef aft [92, 36, 38] = 92 # m"
  by simp

lemma matchAt_Chr:
  "matchAt (Chr p) b s = (case s of [] \<Rightarrow> None | x # xs \<Rightarrow> if p x then Some ([x], Map.empty, xs) else None)"
  by (cases s) (simp_all add: matchAt_def)

lemma replaceG_class:
  "replaceG (Chr p) (\<lambda>bef m c aft. g m) pre b s = concat (map (\<lambda>x. if p x then g [x] else [x]) s)"
proof (induction s arbitrary: pre b)
  case Nil
  show ?case by (simp add: replaceG.simps [of _ _ pre b "[]"] matchAt_Chr)
next
  case (Cons x xs)
  then show ?case by (simp add: replaceG.simps [of _ _ pre b "x # xs"] matchAt_Chr)
qed

lemma escapeRegExp_map:
  "escapeRegExp s = concat (map (\<lambda>x. if isSyntaxChar x then [92, x] else [x]) s)"
  unfolding escapeRegExp_def replaceGStr_def
  using replaceG_class [of isSyntaxChar "\<lambda>m. 92 # m" "[]" True s] by simp

lemma readEscaped_escaped:
  "readEscaped atom (concat (map (\<lambda>x. if isSyntaxChar x then [92, x] else [x]) s)) = map atom s"
proof (induction s)
  case Nil
  show ?case by simp
next
  case (Cons x xs)
  show ?case
  proof (cases "isSyntaxChar x")
    case True
    with Cons show ?thesis by simp
  next
    case False
    then have x: "x \<noteq> 92" by (auto simp: isSyntaxChar_def)
    show ?thesis
    proof (cases "concat (map (\<lambda>x. if isSyntaxChar x then [92, x] else [x]) xs)")
      case Nil
      with Cons False show ?thesis by simp
    next
      case (Cons y ys)
      with Cons.IH False x show ?thesis by simp
    qed
  qed
qed

lemma escapedLiteral_ilit: "escapedLiteral canon s = ilit canon s"
  by (simp add: escapedLiteral_def ilit_def escapeRegExp_map readEscaped_escaped)

subsection \<open>What a match consumes\<close>

lemma eats_refl: "eats r st st"
  by (simp add: eats_def)

lemma eats_trans:
  assumes "eats r1 st st1" and "eats r2 st1 st2"
    and "atoms r1 \<subseteq> atoms r" and "atoms r2 \<subseteq> atoms r"
    and "groups r1 \<subseteq> groups r" and "groups r2 \<subseteq> groups r"
  shows "eats r st st2"
proof -
  from assms(1) obtain u where u: "rest st = u @ rest st1" "\<forall>x \<in> set u. \<exists>p \<in> atoms r1. p x"
    by (auto simp: eats_def)
  from assms(2) obtain v where v: "rest st1 = v @ rest st2" "\<forall>x \<in> set v. \<exists>p \<in> atoms r2. p x"
    by (auto simp: eats_def)
  have "rest st = (u @ v) @ rest st2" using u v by simp
  moreover have "\<forall>x \<in> set (u @ v). \<exists>p \<in> atoms r. p x"
  proof
    fix x assume "x \<in> set (u @ v)"
    then have "x \<in> set u \<or> x \<in> set v" by simp
    then show "\<exists>p \<in> atoms r. p x"
    proof
      assume "x \<in> set u"
      with u(2) obtain p where "p \<in> atoms r1" "p x" by blast
      with assms(3) show ?thesis by blast
    next
      assume "x \<in> set v"
      with v(2) obtain p where "p \<in> atoms r2" "p x" by blast
      with assms(4) show ?thesis by blast
    qed
  qed
  moreover have "\<forall>n. n \<notin> groups r \<longrightarrow> snd (snd st2) n = snd (snd st) n"
  proof (intro allI impI)
    fix n assume n: "n \<notin> groups r"
    with assms(5,6) have "n \<notin> groups r1" "n \<notin> groups r2" by auto
    with assms(1,2) show "snd (snd st2) n = snd (snd st) n" by (simp add: eats_def)
  qed
  ultimately show ?thesis unfolding eats_def by blast
qed

lemma star_eats:
  assumes f: "\<And>st st'. st' \<in> set (f st) \<Longrightarrow> eats r st st'"
  shows "st' \<in> set (star g f n st) \<Longrightarrow> eats r st st'"
proof (induction n arbitrary: st)
  case 0
  then show ?case by (simp add: eats_refl)
next
  case (Suc n)
  from Suc.prems have "st' = st \<or>
      (\<exists>st1. st1 \<in> set (f st) \<and> st' \<in> set (star g f n st1))"
    by (auto simp: Let_def split: if_splits)
  then show ?case
  proof
    assume "st' = st"
    then show ?thesis by (simp add: eats_refl)
  next
    assume "\<exists>st1. st1 \<in> set (f st) \<and> st' \<in> set (star g f n st1)"
    then obtain st1 where st1: "st1 \<in> set (f st)" "st' \<in> set (star g f n st1)" by auto
    from f [OF st1(1)] Suc.IH [OF st1(2)] show ?thesis
      by (rule eats_trans) simp_all
  qed
qed

lemma rxm_eats: "st' \<in> set (rxm r st) \<Longrightarrow> eats r st st'"
proof (induction r arbitrary: st st')
  case (Chr p)
  obtain b s c where st: "st = (b, s, c)" by (cases st) auto
  from Chr st obtain x where "s = x # rest st'" "p x" "snd (snd st') = c"
    by (cases s) (auto split: if_splits)
  with st show ?case by (auto simp: eats_def intro: exI [of _ "[x]"])
next
  case Eps
  then show ?case by (simp add: eats_refl)
next
  case (Seq r1 r2)
  from Seq.prems obtain st1 where st1: "st1 \<in> set (rxm r1 st)" "st' \<in> set (rxm r2 st1)" by auto
  from Seq.IH(1) [OF st1(1)] Seq.IH(2) [OF st1(2)] show ?case
    by (rule eats_trans) simp_all
next
  case (Alt r1 r2)
  from Alt.prems have "st' \<in> set (rxm r1 st) \<or> st' \<in> set (rxm r2 st)" by simp
  then show ?case
  proof
    assume "st' \<in> set (rxm r1 st)"
    from Alt.IH(1) [OF this] eats_refl [of Eps st'] show ?thesis
      by (rule eats_trans) simp_all
  next
    assume "st' \<in> set (rxm r2 st)"
    from Alt.IH(2) [OF this] eats_refl [of Eps st'] show ?thesis
      by (rule eats_trans) simp_all
  qed
next
  case (Star g r)
  have "eats r st st'"
    using star_eats [of "rxm r" r st' g "length (rest st)" st] Star by (simp add: rxm.simps)
  then show ?case by (simp add: eats_def)
next
  case (Grp n r)
  from Grp.prems obtain st1 where st1: "st1 \<in> set (rxm r st)" "rest st' = rest st1"
    "\<forall>k. k \<noteq> n \<longrightarrow> snd (snd st') k = snd (snd st1) k"
    by (auto simp: rxm.simps)
  from Grp.IH [OF st1(1)] st1(2,3) show ?case by (auto simp: eats_def)
next
  case Bol
  then show ?case by (auto simp: rxm.simps eats_refl split: if_splits)
next
  case Eol
  then show ?case by (auto simp: rxm.simps eats_refl split: if_splits)
qed

subsection \<open>Replacing where nothing matches\<close>

lemma replaceG_no_match:
  assumes "\<And>i. i \<le> length s \<Longrightarrow> matchAt r (b \<and> i = 0) (drop i s) = None"
  shows "replaceG r f pre b s = s"
  using assms
proof (induction s arbitrary: pre b)
  case Nil
  from Nil [of 0] show ?case by (simp add: replaceG.simps [of r f pre b "[]"])
next
  case (Cons x xs)
  from Cons.prems [of 0] have here: "matchAt r b (x # xs) = None" by simp
  have "matchAt r (False \<and> i = 0) (drop i xs) = None" if "i \<le> length xs" for i
    using Cons.prems [of "Suc i"] that by simp
  from Cons.IH [of False, OF this] here show ?case
    by (simp add: replaceG.simps [of r f pre b "x # xs"])
qed

lemma replaceG_match_here:
  assumes "matchAt r b s = Some (m, c, aft)" and "m \<noteq> []"
  shows "replaceG r f pre b s
     = f pre m c (drop (length m) s) @ replaceG r f (pre @ m) False (drop (length m) s)"
  using assms by (simp add: replaceG.simps [of r f pre b s])

subsection \<open>White space before a code unit that is not white space\<close>

lemma spaces_then:
  assumes "list_all isSpace w" and "\<not> isSpace x"
    and k: "\<And>st. rest st \<noteq> [] \<Longrightarrow> isSpace (hd (rest st)) \<Longrightarrow> rest (h st) = rest st"
    and fails: "\<And>st. rest st \<noteq> [] \<Longrightarrow> isSpace (hd (rest st)) \<Longrightarrow> rxm k st = []"
  shows "concat (map (\<lambda>st. rxm k (h st)) (rxm spaces (b, w @ x # s, c)))
     = rxm k (h (if w = [] then b else False, x # s, c))"
  using assms(1)
proof (induction w arbitrary: b)
  case Nil
  have "rxm spaces (b, x # s, c) = [(b, x # s, c)]"
    using assms(2) by (simp add: spaces_def)
  then show ?case by simp
next
  case (Cons y w)
  then have y: "isSpace y" and w: "list_all isSpace w" by simp_all
  have unfold: "rxm spaces (b, (y # w) @ x # s, c)
      = rxm spaces (False, w @ x # s, c) @ [(b, (y # w) @ x # s, c)]"
    using y by (simp add: spaces_def)
  have "rest (h (b, (y # w) @ x # s, c)) = (y # w) @ x # s"
    using k [of "(b, (y # w) @ x # s, c)"] y by simp
  then have "rxm k (h (b, (y # w) @ x # s, c)) = []"
    using fails [of "h (b, (y # w) @ x # s, c)"] y by simp
  with Cons.IH [OF w, of False] unfold show ?case by simp
qed

lemma spaces_then_plain:
  assumes "list_all isSpace w" and "\<not> isSpace x"
    and fails: "\<And>st. rest st \<noteq> [] \<Longrightarrow> isSpace (hd (rest st)) \<Longrightarrow> rxm k st = []"
  shows "rxm (Seq spaces k) (b, w @ x # s, c) = rxm k (if w = [] then b else False, x # s, c)"
  using spaces_then [of w x "\<lambda>st. st" k b s c] assms by simp

lemma space_facts:
  "isSpace y \<Longrightarrow> \<not> isDigit y" "isSpace y \<Longrightarrow> y \<noteq> 45" "isSpace y \<Longrightarrow> y \<noteq> 91"
  "isSpace y \<Longrightarrow> y \<noteq> 58" "isSpace y \<Longrightarrow> y \<noteq> 93"
  by (auto simp: isSpace_def isDigit_def)

lemma Chr_first_fails:
  assumes "rest st \<noteq> []" and "\<not> p (hd (rest st))"
  shows "rxm (Seq (Chr p) r) st = []"
proof -
  obtain b s c where st: "st = (b, s, c)" by (cases st) auto
  with assms show ?thesis by (cases s) simp_all
qed

lemma rxm_hhmm:
  assumes "clock t"
  shows "rxm hhmm (b, t @ s, c) = [(False, s, c)]"
proof -
  from assms have "length t = Suc (Suc (Suc (Suc (Suc 0))))" by (simp add: clock_def)
  then obtain a1 a2 a3 a4 a5 where t: "t = [a1, a2, a3, a4, a5]"
    by (auto simp: length_Suc_conv)
  with assms show ?thesis
    by (simp add: clock_def hhmm_def seqs_Cons seqs_Nil exactly_def)
qed

lemma clock_head:
  assumes "clock t"
  obtains a t' where "t = a # t'" and "\<not> isSpace a"
proof -
  from assms have "length t = Suc (Suc (Suc (Suc (Suc 0))))" by (simp add: clock_def)
  then obtain a t' where t: "t = a # t'" by (auto simp: length_Suc_conv)
  with assms have "isDigit a" by (simp add: clock_def)
  then have "\<not> isSpace a" using space_facts(1) by blast
  with t that show thesis by blast
qed

lemma hhmm_fails:
  assumes "rest st \<noteq> []" and "isSpace (hd (rest st))"
  shows "rxm (Seq hhmm r) st = []"
proof -
  have "rxm hhmm st = []"
    unfolding hhmm_def seqs_Cons
    using assms space_facts(1) by (intro Chr_first_fails) auto
  then show ?thesis by simp
qed

lemma concat_rxm_Eps [simp]: "concat (map (rxm Eps) xs) = xs"
  by (induction xs) simp_all

lemma timePrefix_then:
  assumes t1: "clock t1" and t2: "clock t2"
    and w1: "list_all isSpace w1" and w2: "list_all isSpace w2" and w3: "list_all isSpace w3"
    and x: "\<not> isSpace x"
    and fails: "\<And>st. rest st \<noteq> [] \<Longrightarrow> isSpace (hd (rest st)) \<Longrightarrow> rxm k st = []"
  shows "rxm (Seq timePrefix k) (b, stamp t1 w1 w2 t2 w3 @ x # s, c)
     = rxm k (False, x # s, c(1 \<mapsto> stamp t1 w1 w2 t2 w3))"
proof -
  let ?P = "stamp t1 w1 w2 t2 w3"
  let ?st0 = "(b, ?P @ x # s, c)"
  define K3 where "K3 = Seq (Chr (exactly 93)) (Seq spaces Eps)"
  define K2 where "K2 = Seq hhmm K3"
  define K1 where "K1 = Seq (Chr (exactly 45)) (Seq spaces K2)"
  define R where "R = Seq (Chr (exactly 91)) (Seq hhmm (Seq spaces K1))"
  have tp: "timePrefix = Grp 1 R"
    by (simp add: timePrefix_def R_def K1_def K2_def K3_def seqs_Cons seqs_Nil)
  from t2 obtain a t2' where a: "t2 = a # t2'" "\<not> isSpace a" by (rule clock_head)
  have K1_fails: "rxm K1 st = []" if "rest st \<noteq> []" "isSpace (hd (rest st))" for st
    unfolding K1_def using that space_facts(2) by (intro Chr_first_fails) (auto simp: exactly_def)
  have K2_fails: "rxm K2 st = []" if "rest st \<noteq> []" "isSpace (hd (rest st))" for st
    unfolding K2_def using that by (rule hhmm_fails)
  have s1: "rxm R ?st0 = rxm (Seq spaces K1) (False, w1 @ 45 # w2 @ t2 @ 93 # w3 @ x # s, c)"
    using rxm_hhmm [OF t1, of False "w1 @ 45 # w2 @ t2 @ 93 # w3 @ x # s" c]
    by (simp add: R_def stamp_def exactly_def)
  have s2: "rxm (Seq spaces K1) (False, w1 @ 45 # w2 @ t2 @ 93 # w3 @ x # s, c)
      = rxm K1 (False, 45 # w2 @ t2 @ 93 # w3 @ x # s, c)"
    using spaces_then_plain [OF w1, of 45 K1 False "w2 @ t2 @ 93 # w3 @ x # s" c] K1_fails
    by (simp add: isSpace_def)
  have s3: "rxm K1 (False, 45 # w2 @ t2 @ 93 # w3 @ x # s, c)
      = rxm (Seq spaces K2) (False, w2 @ a # t2' @ 93 # w3 @ x # s, c)"
    by (simp add: K1_def exactly_def a)
  have s4: "rxm (Seq spaces K2) (False, w2 @ a # t2' @ 93 # w3 @ x # s, c)
      = rxm K2 (False, t2 @ 93 # w3 @ x # s, c)"
    using spaces_then_plain [OF w2 a(2), of K2 False "t2' @ 93 # w3 @ x # s" c] K2_fails
    by (simp add: a)
  have s5: "rxm K2 (False, t2 @ 93 # w3 @ x # s, c) = rxm spaces (False, w3 @ x # s, c)"
    using rxm_hhmm [OF t2, of False "93 # w3 @ x # s" c]
    by (simp add: K2_def K3_def exactly_def)
  have inner: "rxm R ?st0 = rxm spaces (False, w3 @ x # s, c)"
    using s1 s2 s3 s4 s5 by simp
  define H where "H = (\<lambda>st'. (fst st', rest st',
      (snd (snd st'))(1 \<mapsto> take (length (rest ?st0) - length (rest st')) (rest ?st0))))"
  have "rxm (Seq timePrefix k) ?st0 = concat (map (rxm k) (map H (rxm R ?st0)))"
    by (simp add: tp rxm.simps(6) H_def)
  also have "\<dots> = concat (map (\<lambda>st. rxm k (H st)) (rxm spaces (False, w3 @ x # s, c)))"
    by (simp add: inner comp_def)
  also have "\<dots> = rxm k (H (if w3 = [] then False else False, x # s, c))"
    using fails by (intro spaces_then [OF w3 x]) (simp_all add: H_def)
  also have "H (if w3 = [] then False else False, x # s, c) = (False, x # s, c(1 \<mapsto> ?P))"
    by (simp add: H_def)
  finally show ?thesis .
qed

lemma timePrefix_needs_bracket:
  assumes "s = [] \<or> hd s \<noteq> 91"
  shows "rxm (Seq timePrefix k) (b, s, c) = []"
proof -
  have "rxm (Seq (Chr (exactly 91)) r) (b, s, c) = []" for r
    using assms by (cases s) (simp_all add: exactly_def)
  then show ?thesis
    by (simp add: timePrefix_def seqs_Cons rxm.simps(6))
qed

subsection \<open>A match is a prefix of the text\<close>

lemma matchAt_split:
  assumes "matchAt r b s = Some (m, c, aft)"
  shows "s = m @ aft"
proof (cases "rxm r (b, s, Map.empty)")
  case Nil
  with assms show ?thesis by (simp add: matchAt_def)
next
  case (Cons st sts)
  with assms have "Some (take (length s - length (rest st)) s, snd (snd st), rest st) = Some (m, c, aft)"
    by (simp only: matchAt_def list.case)
  then have m: "take (length s - length (rest st)) s = m" and aft: "rest st = aft"
    by (metis option.inject prod.inject)+
  from Cons have "st \<in> set (rxm r (b, s, Map.empty))" by simp
  from rxm_eats [OF this] obtain u where u: "s = u @ rest st" by (auto simp: eats_def)
  then have "take (length s - length (rest st)) s = u" by simp
  with m aft u show ?thesis by simp
qed

lemma search_split:
  "search r pre b s = Some (bef, m, c, aft) \<Longrightarrow> pre @ s = bef @ m @ aft"
proof (induction s arbitrary: pre b)
  case Nil
  then show ?case by (auto split: option.splits dest: matchAt_split)
next
  case (Cons x xs)
  show ?case
  proof (cases "matchAt r b (x # xs)")
    case None
    with Cons.prems have "search r (pre @ [x]) False xs = Some (bef, m, c, aft)" by simp
    from Cons.IH [OF this] show ?thesis by simp
  next
    case (Some found)
    with Cons.prems have "matchAt r b (x # xs) = Some (m, c, aft)" "bef = pre"
      by (auto split: prod.splits)
    with matchAt_split [of r b "x # xs" m c aft] show ?thesis by simp
  qed
qed

lemma set_trim: "set (trim s) \<subseteq> set s"
proof -
  have "set (dropWhile isSpace (rev (dropWhile isSpace s))) \<subseteq> set (rev (dropWhile isSpace s))"
    by (rule set_dropWhileD [THEN subsetI])
  also have "\<dots> \<subseteq> set s" using set_dropWhileD [of _ isSpace s] by auto
  finally show ?thesis by (simp add: trim_def)
qed

lemma trim_nonempty:
  assumes "s \<noteq> []" and "\<not> isSpace (hd s)"
  shows "trim s \<noteq> []"
proof -
  from assms have d: "dropWhile isSpace s = s" by (cases s) simp_all
  from assms have "hd s \<in> set (rev s)" by simp
  with assms(2) have "dropWhile isSpace (rev s) \<noteq> []"
    by (auto simp: dropWhile_eq_Nil_conv)
  with d show ?thesis by (simp add: trim_def)
qed

lemma set_speakerIdOf: "set (speakerIdOf canon l) \<subseteq> set l"
proof -
  let ?r = "seqs [Bol, ilit canon speakerWord, plus (Chr isSpace)]"
  have "set (replaceFirst ?r [] l) \<subseteq> set l"
  proof (cases "search ?r [] True l")
    case None
    then show ?thesis by (simp add: replaceFirst_def)
  next
    case (Some found)
    obtain bef m c aft where f: "found = (bef, m, c, aft)" by (cases found) auto
    from search_split [of ?r "[]" True l bef m c aft] Some f have "l = bef @ m @ aft" by simp
    then have "set (bef @ aft) \<subseteq> set l" by auto
    with Some f show ?thesis by (simp add: replaceFirst_def)
  qed
  with set_trim [of "replaceFirst ?r [] l"] show ?thesis
    unfolding speakerIdOf_def by blast
qed

subsection \<open>Literal texts\<close>

lemma ilit_Cons: "ilit canon (x # xs) = Seq (Chr (folded canon x)) (ilit canon xs)"
  by (simp add: ilit_def seqs_Cons)

lemma ilit_Nil: "ilit canon [] = Eps"
  by (simp add: ilit_def seqs_Nil)

lemma rxm_ilit_self:
  "rxm (ilit canon l) (b, l @ s, c) = [(if l = [] then b else False, s, c)]"
  by (induction l arbitrary: b) (simp_all add: ilit_Cons ilit_Nil folded_def)

lemma atoms_ilit: "atoms (ilit canon l) = folded canon ` set l"
  by (induction l) (auto simp: ilit_Cons ilit_Nil)

lemma groups_ilit: "groups (ilit canon l) = {}"
  by (induction l) (auto simp: ilit_Cons ilit_Nil)

lemma ilit_first:
  assumes "rest st \<noteq> []" and "\<not> folded canon x (hd (rest st))"
  shows "rxm (ilit canon (x # xs)) st = []"
  unfolding ilit_Cons using assms by (rule Chr_first_fails)

lemma folded_apart:
  assumes "keepsApart canon" and "isSpace y \<or> y = 91 \<or> y = 58" and "x \<noteq> y"
  shows "\<not> folded canon x y"
  using assms unfolding keepsApart_def folded_def by blast

subsection \<open>A designation after a time range\<close>

lemma matchAt_Nil: "rxm r (b, s, Map.empty) = [] \<Longrightarrow> matchAt r b s = None"
  by (simp only: matchAt_def list.case)

lemma matchAt_Cons:
  "rxm r (b, s, Map.empty) = st # sts \<Longrightarrow>
   matchAt r b s = Some (take (length s - length (rest st)) s, snd (snd st), rest st)"
  by (simp only: matchAt_def list.case)

lemma split_at_first:
  "x \<notin> set u \<Longrightarrow> x \<notin> set v \<Longrightarrow> u @ x # r = v @ x # r' \<Longrightarrow> u = v \<and> r = r'"
proof (induction u arbitrary: v)
  case Nil
  then show ?case by (cases v) auto
next
  case (Cons a u)
  then show ?case by (cases v) auto
qed

lemma tail_shape:
  assumes in_tail: "st' \<in> set (rxm (Seq X (Seq spaces (Seq (Chr (exactly 58)) Eps))) (b, y @ 58 # r, c))"
    and no_colon: "\<forall>p \<in> atoms X. \<not> p 58" and no_group: "groups X = {}" and y: "58 \<notin> set y"
  shows "rest st' = r \<and> snd (snd st') = c"
proof -
  let ?st = "(b, y @ 58 # r, c)"
  from in_tail obtain st1 st2 where st1: "st1 \<in> set (rxm X ?st)"
    and st2: "st2 \<in> set (rxm spaces st1)"
    and st3: "st' \<in> set (rxm (Chr (exactly 58)) st2)"
    by auto
  from rxm_eats [OF st1] obtain u1 where u1: "y @ 58 # r = u1 @ rest st1"
    "\<forall>x \<in> set u1. \<exists>p \<in> atoms X. p x" and c1: "snd (snd st1) = c"
    using no_group by (auto simp: eats_def)
  from rxm_eats [OF st2] obtain u2 where u2: "rest st1 = u2 @ rest st2"
    "\<forall>x \<in> set u2. isSpace x" and c2: "snd (snd st2) = snd (snd st1)"
    by (auto simp: eats_def spaces_def)
  obtain b2 s2 cc2 where s2: "st2 = (b2, s2, cc2)" by (cases st2) auto
  from st3 s2 have s3: "s2 = 58 # rest st'" and c3: "snd (snd st') = cc2"
    by (cases s2; auto simp: exactly_def split: if_splits)+
  have "58 \<notin> set u1" using u1(2) no_colon by blast
  moreover have "58 \<notin> set u2" using u2(2) space_facts(4) by blast
  ultimately have "58 \<notin> set (u1 @ u2)" by simp
  moreover have "y @ 58 # r = (u1 @ u2) @ 58 # rest st'"
    using u1(1) u2(1) s2 s3 by simp
  ultimately have "r = rest st'"
    using y split_at_first [of 58 y "u1 @ u2" r "rest st'"] by blast
  with c1 c2 c3 s2 show ?thesis by simp
qed

lemma clock_elems:
  assumes "clock t"
  shows "\<forall>x \<in> set t. isDigit x \<or> x = 58"
proof -
  from assms have "length t = Suc (Suc (Suc (Suc (Suc 0))))" by (simp add: clock_def)
  then obtain a1 a2 a3 a4 a5 where t: "t = [a1, a2, a3, a4, a5]"
    by (auto simp: length_Suc_conv)
  with assms show ?thesis by (simp add: clock_def)
qed

lemma digit_facts: "isDigit x \<Longrightarrow> x \<noteq> 91" "isDigit x \<Longrightarrow> x \<noteq> 10"
  by (auto simp: isDigit_def)

lemma stamp_chars:
  assumes "clock t1" and "clock t2" and "blanks w1" and "blanks w2" and "blanks w3"
  shows "stamp t1 w1 w2 t2 w3 = 91 # tl (stamp t1 w1 w2 t2 w3)"
    and "91 \<notin> set (tl (stamp t1 w1 w2 t2 w3))"
    and "10 \<notin> set (stamp t1 w1 w2 t2 w3)"
proof -
  have c: "91 \<notin> set t \<and> 10 \<notin> set t" if "clock t" for t
    using clock_elems [OF that] digit_facts by fastforce
  have w: "91 \<notin> set w \<and> 10 \<notin> set w" if "blanks w" for w
    using that space_facts(3) by (auto simp: blanks_def list_all_iff)
  show "stamp t1 w1 w2 t2 w3 = 91 # tl (stamp t1 w1 w2 t2 w3)"
    by (simp add: stamp_def)
  show "91 \<notin> set (tl (stamp t1 w1 w2 t2 w3))"
    using c [OF assms(1)] c [OF assms(2)] w [OF assms(3)] w [OF assms(4)] w [OF assms(5)]
    by (simp add: stamp_def)
  show "10 \<notin> set (stamp t1 w1 w2 t2 w3)"
    using c [OF assms(1)] c [OF assms(2)] w [OF assms(3)] w [OF assms(4)] w [OF assms(5)]
    by (simp add: stamp_def)
qed

lemma blanks_spaces: "blanks w \<Longrightarrow> list_all isSpace w"
  by (simp add: blanks_def list_all_iff)

lemma stamped_match:
  assumes t1: "clock t1" and t2: "clock t2"
    and w1: "blanks w1" and w2: "blanks w2" and w3: "blanks w3"
    and y: "y \<noteq> []" "\<not> isSpace (hd y)" "58 \<notin> set y"
    and no_colon: "\<forall>p \<in> atoms X. \<not> p 58" and no_group: "groups X = {}"
    and fails: "\<And>st. rest st \<noteq> [] \<Longrightarrow> isSpace (hd (rest st)) \<Longrightarrow> rxm X st = []"
  shows "matchAt (seqs [timePrefix, X, spaces, Chr (exactly 58)]) b (stamp t1 w1 w2 t2 w3 @ y @ 58 # r) = None
     \<or> matchAt (seqs [timePrefix, X, spaces, Chr (exactly 58)]) b (stamp t1 w1 w2 t2 w3 @ y @ 58 # r)
         = Some (stamp t1 w1 w2 t2 w3 @ y @ [58], [1 \<mapsto> stamp t1 w1 w2 t2 w3], r)"
proof -
  let ?P = "stamp t1 w1 w2 t2 w3"
  let ?k = "Seq X (Seq spaces (Seq (Chr (exactly 58)) Eps))"
  let ?T = "?P @ y @ 58 # r"
  from y obtain y0 y' where yy: "y = y0 # y'" "\<not> isSpace y0" by (cases y) auto
  have kf: "rxm ?k st = []" if "rest st \<noteq> []" "isSpace (hd (rest st))" for st
    using fails [OF that] by simp
  have eq: "rxm (seqs [timePrefix, X, spaces, Chr (exactly 58)]) (b, ?T, Map.empty)
      = rxm ?k (False, y @ 58 # r, [1 \<mapsto> ?P])"
    using timePrefix_then [OF t1 t2 blanks_spaces [OF w1] blanks_spaces [OF w2] blanks_spaces [OF w3]
        yy(2), of ?k b "y' @ 58 # r" Map.empty] kf
    by (simp add: seqs_Cons seqs_Nil yy)
  show ?thesis
  proof (cases "rxm ?k (False, y @ 58 # r, [1 \<mapsto> ?P])")
    case Nil
    with eq have "rxm (seqs [timePrefix, X, spaces, Chr (exactly 58)]) (b, ?T, Map.empty) = []"
      by (simp only:)
    from matchAt_Nil [OF this] show ?thesis by (rule disjI1)
  next
    case (Cons st sts)
    then have "st \<in> set (rxm ?k (False, y @ 58 # r, [1 \<mapsto> ?P]))" by (simp only: list.set_intros)
    from tail_shape [OF this no_colon no_group y(3)]
    have st: "rest st = r" "snd (snd st) = [1 \<mapsto> ?P]" by simp_all
    from eq Cons have "rxm (seqs [timePrefix, X, spaces, Chr (exactly 58)]) (b, ?T, Map.empty) = st # sts"
      by (simp only:)
    from matchAt_Cons [OF this]
    have "matchAt (seqs [timePrefix, X, spaces, Chr (exactly 58)]) b ?T
         = Some (take (length ?T - length r) ?T, [1 \<mapsto> ?P], r)"
      by (simp only: st)
    moreover have "take (length ?T - length r) ?T = ?P @ y @ [58]" by simp
    ultimately have "matchAt (seqs [timePrefix, X, spaces, Chr (exactly 58)]) b ?T
         = Some (?P @ y @ [58], [1 \<mapsto> ?P], r)" by (simp only:)
    then show ?thesis by (rule disjI2)
  qed
qed

lemma no_bracket_no_pass:
  assumes "91 \<notin> set s"
  shows "replaceG (Seq timePrefix k) f pre b s = s"
proof (rule replaceG_no_match)
  fix i assume "i \<le> length s"
  have "drop i s = [] \<or> hd (drop i s) \<noteq> 91"
  proof (cases "drop i s")
    case Nil
    then show ?thesis by simp
  next
    case (Cons x xs)
    then have "x \<in> set s" by (metis in_set_dropD list.set_intros(1))
    with assms Cons show ?thesis by auto
  qed
  from matchAt_Nil [OF timePrefix_needs_bracket [OF this]]
  show "matchAt (Seq timePrefix k) (b \<and> i = 0) (drop i s) = None" .
qed

lemma trim_stamp: "trim (stamp t1 w1 w2 t2 w3) \<noteq> []"
  by (rule trim_nonempty) (simp_all add: stamp_def isSpace_def)

lemma pass_stamped:
  assumes t1: "clock t1" and t2: "clock t2"
    and w1: "blanks w1" and w2: "blanks w2" and w3: "blanks w3"
    and y: "y \<noteq> []" "\<not> isSpace (hd y)" "58 \<notin> set y" "91 \<notin> set y"
    and r: "91 \<notin> set r"
    and no_colon: "\<forall>p \<in> atoms X. \<not> p 58" and no_group: "groups X = {}"
    and fails: "\<And>st. rest st \<noteq> [] \<Longrightarrow> isSpace (hd (rest st)) \<Longrightarrow> rxm X st = []"
  shows "replaceG (seqs [timePrefix, X, spaces, Chr (exactly 58)]) (replacer canon l sid n) [] True
           (stamp t1 w1 w2 t2 w3 @ y @ 58 # r)
     = (if matchAt (seqs [timePrefix, X, spaces, Chr (exactly 58)]) True (stamp t1 w1 w2 t2 w3 @ y @ 58 # r) = None
        then stamp t1 w1 w2 t2 w3 @ y @ 58 # r
        else stamp t1 w1 w2 t2 w3 @ n @ 58 # r)"
proof -
  let ?P = "stamp t1 w1 w2 t2 w3"
  let ?pat = "seqs [timePrefix, X, spaces, Chr (exactly 58)]"
  let ?T = "?P @ y @ 58 # r"
  let ?f = "replacer canon l sid n"
  have pat: "?pat = Seq timePrefix (seqs [X, spaces, Chr (exactly 58)])"
    by (simp add: seqs_Cons)
  note chars = stamp_chars [OF t1 t2 w1 w2 w3]
  show ?thesis
  proof (cases "matchAt ?pat True ?T = None")
    case True
    have "replaceG ?pat ?f [] True ?T = ?T"
    proof (rule replaceG_no_match)
      fix i assume i: "i \<le> length ?T"
      show "matchAt ?pat (True \<and> i = 0) (drop i ?T) = None"
      proof (cases i)
        case 0
        with True show ?thesis by simp
      next
        case (Suc j)
        have T: "?T = 91 # (tl ?P @ y @ 58 # r)"
          using chars(1) by (metis append_Cons)
        have free: "91 \<notin> set (tl ?P @ y @ 58 # r)"
          using chars(2) y(4) r by simp
        have "drop i ?T = drop j (tl ?P @ y @ 58 # r)"
          using Suc by (subst T) simp
        moreover have "drop j (tl ?P @ y @ 58 # r) = [] \<or> hd (drop j (tl ?P @ y @ 58 # r)) \<noteq> 91"
        proof (cases "drop j (tl ?P @ y @ 58 # r)")
          case Nil
          then show ?thesis by simp
        next
          case (Cons x xs)
          then have "x \<in> set (tl ?P @ y @ 58 # r)" by (metis in_set_dropD list.set_intros(1))
          with free Cons show ?thesis by auto
        qed
        ultimately have "drop i ?T = [] \<or> hd (drop i ?T) \<noteq> 91" by simp
        from matchAt_Nil [OF timePrefix_needs_bracket [OF this]] show ?thesis
          by (simp only: pat)
      qed
    qed
    with True show ?thesis by simp
  next
    case False
    with stamped_match [OF t1 t2 w1 w2 w3 y(1,2,3) no_colon no_group fails, of True r]
    have m: "matchAt ?pat True ?T = Some (?P @ y @ [58], [1 \<mapsto> ?P], r)" by blast
    have d: "drop (length (?P @ y @ [58])) ?T = r" by simp
    have "replaceG ?pat ?f [] True ?T
        = ?f [] (?P @ y @ [58]) [1 \<mapsto> ?P] r @ replaceG ?pat ?f ([] @ ?P @ y @ [58]) False r"
      using replaceG_match_here [OF m, of ?f "[]"] d by simp
    moreover have "replaceG ?pat ?f ([] @ ?P @ y @ [58]) False r = r"
      unfolding pat by (rule no_bracket_no_pass [OF r])
    moreover have "?f [] (?P @ y @ [58]) [1 \<mapsto> ?P] r = ?P @ n @ [58]"
      using trim_stamp [of t1 w1 w2 t2 w3] by (simp add: replacer_def stamp_def)
    ultimately have res: "replaceG ?pat ?f [] True ?T = ?P @ n @ 58 # r" by simp
    show ?thesis unfolding res by (simp only: False if_False)
  qed
qed

subsection \<open>A designation at the start of a line\<close>

lemma lineStart_at_bracket:
  assumes fails: "\<And>st. rest st \<noteq> [] \<Longrightarrow> isSpace (hd (rest st)) \<or> hd (rest st) = 91 \<Longrightarrow> rxm X st = []"
  shows "rxm (seqs [lineStart, spaces, X, spaces, Chr (exactly 58)]) (b, 91 # s, c) = []"
proof -
  let ?k = "Seq X (seqs [spaces, Chr (exactly 58)])"
  have kf: "rxm ?k st = []" if "rest st \<noteq> []" "isSpace (hd (rest st)) \<or> hd (rest st) = 91" for st
    using fails [OF that] by simp
  have sp: "rxm (Seq spaces ?k) (b', 91 # s, c') = []" for b' c'
  proof -
    have "\<not> isSpace 91" by (simp add: isSpace_def)
    from spaces_then_plain [of "[]" 91 ?k b' s c', OF _ this] kf
    have "rxm (Seq spaces ?k) (b', 91 # s, c') = rxm ?k (b', 91 # s, c')" by simp
    also have "\<dots> = []" by (rule kf) simp_all
    finally show ?thesis .
  qed
  have "rxm lineStart (b, 91 # s, c) = (if b then [(b, 91 # s, c(1 \<mapsto> []))] else [])"
    by (simp add: lineStart_def rxm.simps(6) exactly_def)
  then show ?thesis
    using sp by (simp add: seqs_Cons)
qed

lemma lineStart_elsewhere:
  assumes "s = [] \<or> hd s \<noteq> 10"
  shows "rxm (Seq lineStart k) (False, s, c) = []"
  using assms by (cases s) (simp_all add: lineStart_def rxm.simps(6) exactly_def)

lemma no_line_pass:
  assumes fails: "\<And>st. rest st \<noteq> [] \<Longrightarrow> isSpace (hd (rest st)) \<or> hd (rest st) = 91 \<Longrightarrow> rxm X st = []"
    and s: "10 \<notin> set s"
  shows "replaceG (seqs [lineStart, spaces, X, spaces, Chr (exactly 58)]) f pre True (91 # s) = 91 # s"
proof (rule replaceG_no_match)
  fix i assume "i \<le> length (91 # s)"
  let ?pat = "seqs [lineStart, spaces, X, spaces, Chr (exactly 58)]"
  show "matchAt ?pat (True \<and> i = 0) (drop i (91 # s)) = None"
  proof (cases i)
    case 0
    have "matchAt ?pat True (91 # s) = None"
      by (rule matchAt_Nil [OF lineStart_at_bracket [OF fails]])
    with 0 show ?thesis by simp
  next
    case (Suc j)
    have "drop j s = [] \<or> hd (drop j s) \<noteq> 10"
    proof (cases "drop j s")
      case Nil
      then show ?thesis by simp
    next
      case (Cons x xs)
      then have "x \<in> set s" by (metis in_set_dropD list.set_intros(1))
      with s Cons show ?thesis by auto
    qed
    from matchAt_Nil [OF lineStart_elsewhere [OF this]]
    have "matchAt ?pat False (drop j s) = None" by (simp only: seqs_Cons)
    with Suc show ?thesis by simp
  qed
qed

subsection \<open>The two forms of a designation\<close>

lemma folded_colon:
  assumes "keepsApart canon" and "58 \<notin> set l"
  shows "\<forall>x \<in> set l. \<not> folded canon x 58"
proof
  fix x assume "x \<in> set l"
  with assms(2) have "x \<noteq> 58" by auto
  moreover have "isSpace 58 \<or> (58::jschar) = 91 \<or> (58::jschar) = 58" by simp
  ultimately show "\<not> folded canon x 58" using folded_apart [OF assms(1)] by blast
qed

lemma ilit_facts:
  assumes apart: "keepsApart canon" and l: "l \<noteq> []" "\<not> isSpace (hd l)" "91 \<notin> set l" "58 \<notin> set l"
  shows "\<forall>p \<in> atoms (ilit canon l). \<not> p 58"
    and "groups (ilit canon l) = {}"
    and "\<And>st. rest st \<noteq> [] \<Longrightarrow> isSpace (hd (rest st)) \<or> hd (rest st) = 91 \<Longrightarrow> rxm (ilit canon l) st = []"
proof -
  show "\<forall>p \<in> atoms (ilit canon l). \<not> p 58"
    using folded_colon [OF apart l(4)] by (simp add: atoms_ilit)
  show "groups (ilit canon l) = {}" by (rule groups_ilit)
  fix st :: mstate
  assume st: "rest st \<noteq> []" "isSpace (hd (rest st)) \<or> hd (rest st) = 91"
  from l obtain x xs where x: "l = x # xs" "\<not> isSpace x" "x \<noteq> 91" by (cases l) auto
  have "x \<noteq> hd (rest st)" using st(2) x(2,3) by auto
  from folded_apart [OF apart _ this] st(2)
  have "\<not> folded canon x (hd (rest st))" by blast
  from ilit_first [OF st(1) this] show "rxm (ilit canon l) st = []" by (simp only: x(1))
qed

lemma wordAndId_facts:
  assumes apart: "keepsApart canon" and sid: "58 \<notin> set sid"
  shows "\<forall>p \<in> atoms (wordAndId canon sid). \<not> p 58"
    and "groups (wordAndId canon sid) = {}"
    and "\<And>st. rest st \<noteq> [] \<Longrightarrow> isSpace (hd (rest st)) \<or> hd (rest st) = 91 \<Longrightarrow> rxm (wordAndId canon sid) st = []"
proof -
  have w: "speakerWord \<noteq> []" "\<not> isSpace (hd speakerWord)" "91 \<notin> set speakerWord" "58 \<notin> set speakerWord"
    by (simp_all add: speakerWord_def isSpace_def)
  note word = ilit_facts [OF apart w]
  have "\<not> isSpace 58" by (simp add: isSpace_def)
  then show "\<forall>p \<in> atoms (wordAndId canon sid). \<not> p 58"
    using folded_colon [OF apart w(4)] folded_colon [OF apart sid]
    by (auto simp: wordAndId_def seqs_Cons seqs_Nil plus_def escapedLiteral_ilit atoms_ilit)
  show "groups (wordAndId canon sid) = {}"
    by (simp add: wordAndId_def seqs_Cons seqs_Nil plus_def escapedLiteral_ilit groups_ilit)
  fix st :: mstate
  assume st: "rest st \<noteq> []" "isSpace (hd (rest st)) \<or> hd (rest st) = 91"
  from word(3) [OF st] show "rxm (wordAndId canon sid) st = []"
    by (simp add: wordAndId_def seqs_Cons)
qed

lemma ilit_then_colon:
  "rxm (seqs [ilit canon l, spaces, Chr (exactly 58)]) (b, l @ 58 # r, c) \<noteq> []"
proof -
  have ns: "\<not> isSpace 58" by (simp add: isSpace_def)
  have kf: "rxm (Seq (Chr (exactly 58)) Eps) st = []" if "rest st \<noteq> []" "isSpace (hd (rest st))" for st
    by (rule Chr_first_fails [OF that(1)]) (use that(2) space_facts(4) in \<open>auto simp: exactly_def\<close>)
  have "rxm (Seq spaces (Seq (Chr (exactly 58)) Eps)) (b', [] @ 58 # r, c)
      = rxm (Seq (Chr (exactly 58)) Eps) (if [] = ([]::jstring) then b' else False, 58 # r, c)" for b'
    by (rule spaces_then_plain [OF _ ns kf]) simp_all
  then have sp: "rxm (Seq spaces (Seq (Chr (exactly 58)) Eps)) (b', 58 # r, c) = [(False, r, c)]" for b'
    by (simp add: exactly_def)
  have "rxm (seqs [ilit canon l, spaces, Chr (exactly 58)]) (b, l @ 58 # r, c)
      = concat (map (rxm (Seq spaces (Seq (Chr (exactly 58)) Eps))) (rxm (ilit canon l) (b, l @ 58 # r, c)))"
    by (simp only: seqs_Cons seqs_Nil rxm_Seq)
  also have "\<dots> = [(False, r, c)]"
    by (simp only: rxm_ilit_self list.map concat.simps sp append_Nil2)
  finally show ?thesis by simp
qed

lemma matchAt_None_iff: "matchAt r b s = None \<longleftrightarrow> rxm r (b, s, Map.empty) = []"
  by (cases "rxm r (b, s, Map.empty)") (simp_all add: matchAt_def)

lemma keepsApart_canonicalize: "keepsApart canonicalize"
proof -
  have "d = c" if "canonicalize c = canonicalize d" and "isSpace c \<or> c = 91 \<or> c = 58" for c d
  proof -
    from that(2) have c: "canonicalize c = c" "c < 97 \<or> 122 < c" "c < 1024 \<or> 1119 < c" "c < 65 \<or> 90 < c"
      by (auto simp: canonicalize_def isSpace_def)
    with that(1) show ?thesis
      by (auto simp: canonicalize_def split: if_splits)
  qed
  then show ?thesis unfolding keepsApart_def by blast
qed

lemma stamped_designation:
  assumes apart: "keepsApart canon"
    and t1: "clock t1" and t2: "clock t2"
    and w1: "blanks w1" and w2: "blanks w2" and w3: "blanks w3"
    and L: "L \<noteq> []" "\<not> isSpace (hd L)" "91 \<notin> set L" "58 \<notin> set L"
    and N: "N \<noteq> []" "\<not> isSpace (hd N)" "91 \<notin> set N" "58 \<notin> set N" "10 \<notin> set N"
    and r: "91 \<notin> set r" "10 \<notin> set r"
  shows "applyEntry canon (stamp t1 w1 w2 t2 w3 @ L @ 58 # r) (L, N) = stamp t1 w1 w2 t2 w3 @ N @ 58 # r"
proof -
  let ?P = "stamp t1 w1 w2 t2 w3"
  let ?TL = "?P @ L @ 58 # r"
  let ?TN = "?P @ N @ 58 # r"
  define sid where "sid = speakerIdOf canon L"
  define f where "f = replacer canon L sid N"
  let ?pa = "seqs [timePrefix, wordAndId canon sid, spaces, Chr (exactly 58)]"
  let ?pb = "seqs [timePrefix, ilit canon L, spaces, Chr (exactly 58)]"
  let ?pc = "seqs [lineStart, spaces, wordAndId canon sid, spaces, Chr (exactly 58)]"
  let ?pd = "seqs [lineStart, spaces, ilit canon L, spaces, Chr (exactly 58)]"
  have sid: "58 \<notin> set sid"
    using set_speakerIdOf [of canon L] L(4) unfolding sid_def by blast
  note A = wordAndId_facts [OF apart sid]
  note B = ilit_facts [OF apart L]
  have matchB: "matchAt ?pb True ?TL \<noteq> None"
  proof -
    from L obtain l0 l' where l: "L = l0 # l'" "\<not> isSpace l0" by (cases L) auto
    let ?k = "seqs [ilit canon L, spaces, Chr (exactly 58)]"
    have kf: "rxm ?k st = []" if "rest st \<noteq> []" "isSpace (hd (rest st))" for st
      using B(3) [of st] that by (simp add: seqs_Cons)
    have "rxm (Seq timePrefix ?k) (True, ?P @ l0 # (l' @ 58 # r), Map.empty)
        = rxm ?k (False, l0 # (l' @ 58 # r), [1 \<mapsto> ?P])"
      by (rule timePrefix_then [OF t1 t2 blanks_spaces [OF w1] blanks_spaces [OF w2]
            blanks_spaces [OF w3] l(2) kf])
    then have "rxm ?pb (True, ?TL, Map.empty) = rxm ?k (False, L @ 58 # r, [1 \<mapsto> ?P])"
      by (simp only: seqs_Cons l(1) append_Cons)
    with ilit_then_colon [of canon L False r "[1 \<mapsto> ?P]"]
    show ?thesis by (metis matchAt_None_iff)
  qed
  have B3: "rxm (ilit canon L) st = []" if "rest st \<noteq> []" "isSpace (hd (rest st))" for st
    using B(3) [of st] that by blast
  have A3: "rxm (wordAndId canon sid) st = []" if "rest st \<noteq> []" "isSpace (hd (rest st))" for st
    using A(3) [of st] that by blast
  have passA': "replaceG ?pa f [] True ?TL = ?TL \<or> replaceG ?pa f [] True ?TL = ?TN"
  proof -
    have "replaceG ?pa f [] True ?TL = (if matchAt ?pa True ?TL = None then ?TL else ?TN)"
      unfolding f_def by (rule pass_stamped [OF t1 t2 w1 w2 w3 L(1,2,4,3) r(1) A(1,2) A3])
    then show ?thesis by presburger
  qed
  have passB: "replaceG ?pb f [] True ?TL = ?TN"
  proof -
    have "replaceG ?pb f [] True ?TL = (if matchAt ?pb True ?TL = None then ?TL else ?TN)"
      unfolding f_def by (rule pass_stamped [OF t1 t2 w1 w2 w3 L(1,2,4,3) r(1) B(1,2) B3])
    with matchB show ?thesis by (simp only: if_False)
  qed
  have passBN: "replaceG ?pb f [] True ?TN = ?TN"
  proof -
    have "replaceG ?pb f [] True ?TN = (if matchAt ?pb True ?TN = None then ?TN else ?TN)"
      unfolding f_def by (rule pass_stamped [OF t1 t2 w1 w2 w3 N(1,2,4,3) r(1) B(1,2) B3])
    then show ?thesis by (simp only: if_cancel)
  qed
  note chars = stamp_chars [OF t1 t2 w1 w2 w3]
  have TN: "?TN = 91 # (tl ?P @ N @ 58 # r)"
    using chars(1) by (metis append_Cons)
  have "10 \<notin> set ?P" by (rule chars(3))
  then have "10 \<notin> set (tl ?P)" by (metis list.set_sel(2) tl_Nil)
  then have free: "10 \<notin> set (tl ?P @ N @ 58 # r)"
    using N(5) r(2) by simp
  have passC: "replaceG ?pc f [] True ?TN = ?TN"
    unfolding TN by (rule no_line_pass [OF A(3) free])
  have passD: "replaceG ?pd f [] True ?TN = ?TN"
    unfolding TN by (rule no_line_pass [OF B(3) free])
  have ab: "replaceG ?pb f [] True (replaceG ?pa f [] True ?TL) = ?TN"
    using passA' passB passBN by presburger
  have name: "\<not> (N = [] \<or> trim N = [])"
    using N(1) trim_nonempty [OF N(1,2)] by blast
  have "applyEntry canon ?TL (L, N)
      = replaceG ?pd f [] True (replaceG ?pc f [] True (replaceG ?pb f [] True (replaceG ?pa f [] True ?TL)))"
    using name
    by (simp only: applyEntry_def Let_def fst_conv snd_conv if_False patterns_def foldl.simps
          escapedLiteral_ilit sid_def f_def)
  also have "\<dots> = ?TN" by (simp only: ab passC passD)
  finally show ?thesis .
qed

subsection \<open>Replacing the designation after a time range\<close>




end
